theory Spec2Isabelle
  imports Complex_Main "HOL-Library.AList" "HOL-Library.Multiset" "HOL-Library.Product_Lexorder"
begin

section \<open>Requests\<close>

text \<open>
  A value that can sit in \<open>request.meta\<close> or be used as a scheduler slot: Python's
  \<open>None\<close>, a string or a boolean.
\<close>

datatype pyval = PyNone | PyStr string | PyBool bool

text \<open>
  \<open>scrapy.Request\<close>, reduced to the attributes the queues read and write: the URL, the
  mutable integer \<open>priority\<close> and the \<open>meta\<close> dict (an association list with unique keys).
\<close>

record request =
  url :: string
  priority :: int
  meta :: "(string \<times> pyval) list"

text \<open>\<open>request.meta.get(key)\<close>: the value, or \<open>None\<close> when the key is absent.\<close>

definition meta_get :: "request \<Rightarrow> string \<Rightarrow> pyval" where
  "meta_get r k = (case map_of (meta r) k of None \<Rightarrow> PyNone | Some v \<Rightarrow> v)"

text \<open>\<open>request.meta[key] = value\<close>.\<close>

definition meta_set :: "request \<Rightarrow> string \<Rightarrow> pyval \<Rightarrow> request" where
  "meta_set r k v = r\<lparr>meta := AList.update k v (meta r)\<rparr>"

section \<open>The heapq module of the standard library\<close>

text \<open>
  \<open>queues.py\<close> keeps \<open>entries\<close> in heap order with \<open>heapq.heappush\<close>, \<open>heapq.heappop\<close>
  and \<open>heapq.heapify\<close>. They are transcribed here from CPython's \<open>Lib/heapq.py\<close>, loop by
  loop, over a list and the comparison \<open>lt\<close> that stands for \<open><\<close> on the items.

  \<^verbatim>\<open>
  def _siftdown(heap, startpos, pos):
      newitem = heap[pos]
      while pos > startpos:
          parentpos = (pos - 1) >> 1
          parent = heap[parentpos]
          if newitem < parent:
              heap[pos] = parent
              pos = parentpos
              continue
          break
      heap[pos] = newitem
  \<close>
\<close>

function siftdown_loop ::
  "('a \<Rightarrow> 'a \<Rightarrow> bool) \<Rightarrow> 'a \<Rightarrow> nat \<Rightarrow> 'a list \<Rightarrow> nat \<Rightarrow> 'a list \<times> nat" where
  "siftdown_loop lt newitem startpos heap pos =
     (if pos > startpos then
        (if lt newitem (heap ! ((pos - 1) div 2))
         then siftdown_loop lt newitem startpos
                (heap[pos := heap ! ((pos - 1) div 2)]) ((pos - 1) div 2)
         else (heap, pos))
      else (heap, pos))"
  by pat_completeness auto
termination
  by (relation "measure (\<lambda>(lt, newitem, startpos, heap, pos). pos)") auto

declare siftdown_loop.simps [simp del]

definition siftdown :: "('a \<Rightarrow> 'a \<Rightarrow> bool) \<Rightarrow> 'a list \<Rightarrow> nat \<Rightarrow> nat \<Rightarrow> 'a list" where
  "siftdown lt heap startpos pos =
     (case siftdown_loop lt (heap ! pos) startpos heap pos of
        (heap', pos') \<Rightarrow> heap'[pos' := heap ! pos])"

text \<open>
  \<^verbatim>\<open>
  def _siftup(heap, pos):
      endpos = len(heap)
      startpos = pos
      newitem = heap[pos]
      childpos = 2*pos + 1
      while childpos < endpos:
          rightpos = childpos + 1
          if rightpos < endpos and not heap[childpos] < heap[rightpos]:
              childpos = rightpos
          heap[pos] = heap[childpos]
          pos = childpos
          childpos = 2*pos + 1
      heap[pos] = newitem
      _siftdown(heap, startpos, pos)
  \<close>
\<close>

definition smaller_child :: "('a \<Rightarrow> 'a \<Rightarrow> bool) \<Rightarrow> 'a list \<Rightarrow> nat \<Rightarrow> nat" where
  "smaller_child lt heap pos =
     (if 2 * pos + 2 < length heap \<and> \<not> lt (heap ! (2 * pos + 1)) (heap ! (2 * pos + 2))
      then 2 * pos + 2 else 2 * pos + 1)"

function siftup_loop :: "('a \<Rightarrow> 'a \<Rightarrow> bool) \<Rightarrow> 'a list \<Rightarrow> nat \<Rightarrow> 'a list \<times> nat" where
  "siftup_loop lt heap pos =
     (if 2 * pos + 1 < length heap
      then siftup_loop lt (heap[pos := heap ! smaller_child lt heap pos])
             (smaller_child lt heap pos)
      else (heap, pos))"
  by pat_completeness auto
termination
  by (relation "measure (\<lambda>(lt, heap, pos). length heap - pos)")
     (auto simp: smaller_child_def)

declare siftup_loop.simps [simp del]

definition siftup :: "('a \<Rightarrow> 'a \<Rightarrow> bool) \<Rightarrow> 'a list \<Rightarrow> nat \<Rightarrow> 'a list" where
  "siftup lt heap pos =
     (case siftup_loop lt heap pos of
        (heap', pos') \<Rightarrow> siftdown lt (heap'[pos' := heap ! pos]) pos pos')"

text \<open>
  \<^verbatim>\<open>
  def heappush(heap, item):
      heap.append(item)
      _siftdown(heap, 0, len(heap)-1)
  \<close>
\<close>

definition heappush :: "('a \<Rightarrow> 'a \<Rightarrow> bool) \<Rightarrow> 'a list \<Rightarrow> 'a \<Rightarrow> 'a list" where
  "heappush lt heap item = siftdown lt (heap @ [item]) 0 (length heap)"

text \<open>
  \<^verbatim>\<open>
  def heappop(heap):
      lastelt = heap.pop()    # raises appropriate IndexError if heap is empty
      if heap:
          returnitem = heap[0]
          heap[0] = lastelt
          _siftup(heap, 0)
          return returnitem
      return lastelt
  \<close>
  The \<open>IndexError\<close> on an empty heap is the result \<open>None\<close>.
\<close>

definition heappop :: "('a \<Rightarrow> 'a \<Rightarrow> bool) \<Rightarrow> 'a list \<Rightarrow> ('a \<times> 'a list) option" where
  "heappop lt heap =
     (if heap = [] then None
      else if butlast heap \<noteq> []
           then Some (hd heap, siftup lt ((butlast heap)[0 := last heap]) 0)
           else Some (last heap, []))"

text \<open>
  \<^verbatim>\<open>
  def heapify(x):
      n = len(x)
      for i in reversed(range(n//2)):
          _siftup(x, i)
  \<close>
\<close>

definition heapify_list :: "('a \<Rightarrow> 'a \<Rightarrow> bool) \<Rightarrow> 'a list \<Rightarrow> 'a list" where
  "heapify_list lt x = foldl (siftup lt) x (rev [0..<length x div 2])"

section \<open>RequestsPriorityQueue\<close>

definition FLOAT_PRIORITY_MULTIPLIER :: int where
  "FLOAT_PRIORITY_MULTIPLIER = 10000"

text \<open>
  \<open>REMOVED_PRIORITY = score_to_priority(10000)\<close> and \<open>EMPTY_PRIORITY =
  score_to_priority(-10000)\<close>, where \<open>score_to_priority(score)\<close> is
  \<open>int(score * FLOAT_PRIORITY_MULTIPLIER)\<close>: on these two integer arguments the product is
  an integer and \<open>int\<close> leaves it as it is.
\<close>

definition REMOVED_PRIORITY :: int where
  "REMOVED_PRIORITY = 10000 * FLOAT_PRIORITY_MULTIPLIER"

definition EMPTY_PRIORITY :: int where
  "EMPTY_PRIORITY = - 10000 * FLOAT_PRIORITY_MULTIPLIER"

text \<open>
  An entry is the mutable list \<open>[-priority, count, request]\<close>. Its third component is a
  request or the sentinel \<open>REMOVED\<close>, which is \<open>None\<close> here.
\<close>

record entry =
  neg_priority :: int
  count :: int
  req :: "request option"

text \<open>
  \<open>heapq\<close> compares entries as Python lists: by the first component, then by the second.
  The counts of one queue are pairwise different, so the comparison never reaches the
  third component.
\<close>

definition entry_lt :: "entry \<Rightarrow> entry \<Rightarrow> bool" where
  "entry_lt a b =
     (neg_priority a < neg_priority b \<or>
      (neg_priority a = neg_priority b \<and> count a < count b))"

text \<open>
  Entries are shared by reference between \<open>self.entries\<close> and the handles that \<open>push\<close>
  returns, and \<open>change_priority\<close> and \<open>remove_entry\<close> mutate them in place. So the queue
  has a store of all the entries it ever created, addressed by their creation index, and
  \<open>entries\<close> is the heap-ordered list of addresses. \<open>counter\<close> is the value the next
  \<open>next(self.counter)\<close> returns and \<open>step\<close> is the step of \<open>itertools.count\<close>.
\<close>

record queue =
  entries :: "nat list"
  store :: "entry list"
  counter :: int
  step :: int

definition addr_lt :: "entry list \<Rightarrow> nat \<Rightarrow> nat \<Rightarrow> bool" where
  "addr_lt st a b = entry_lt (st ! a) (st ! b)"

text \<open>\<open>__init__(self, fifo=True)\<close>.\<close>

definition init_queue :: "bool \<Rightarrow> queue" where
  "init_queue fifo =
     \<lparr>entries = [], store = [], counter = 0, step = (if fifo then 1 else - 1)\<rparr>"

text \<open>\<open>push\<close> returns the new entry (its address) and the queue.\<close>

definition queue_push :: "queue \<Rightarrow> request \<Rightarrow> nat \<times> queue" where
  "queue_push q request =
     (let entry = \<lparr>neg_priority = - priority request, count = counter q, req = Some request\<rparr>;
          addr = length (store q);
          st = store q @ [entry]
      in (addr, q\<lparr>entries := heappush (addr_lt st) (entries q) addr,
                  store := st,
                  counter := counter q + step q\<rparr>))"


text \<open>The heap operations move the items of the list around and keep its length.\<close>

lemma siftdown_loop_length:
  "siftdown_loop lt newitem startpos heap pos = (heap', pos') \<Longrightarrow> length heap' = length heap"
proof (induction lt newitem startpos heap pos rule: siftdown_loop.induct)
  case (1 lt newitem startpos heap pos)
  from "1.prems" show ?case
    by (subst (asm) siftdown_loop.simps) (auto split: if_splits dest: "1.IH")
qed

lemma siftdown_length: "length (siftdown lt heap startpos pos) = length heap"
  by (auto simp: siftdown_def siftdown_loop_length split: prod.splits)

lemma siftup_loop_length:
  "siftup_loop lt heap pos = (heap', pos') \<Longrightarrow> length heap' = length heap"
proof (induction lt heap pos rule: siftup_loop.induct)
  case (1 lt heap pos)
  show ?case
  proof (cases "2 * pos + 1 < length heap")
    case True
    with "1.prems" have "siftup_loop lt (heap[pos := heap ! smaller_child lt heap pos])
        (smaller_child lt heap pos) = (heap', pos')"
      by (subst (asm) siftup_loop.simps) simp
    from "1.IH" [OF True this] show ?thesis by simp
  next
    case False
    with "1.prems" show ?thesis
      by (subst (asm) siftup_loop.simps) simp
  qed
qed

lemma siftup_length: "length (siftup lt heap pos) = length heap"
  by (auto simp: siftup_def siftdown_length siftup_loop_length split: prod.splits)

lemma heappush_length: "length (heappush lt heap item) = Suc (length heap)"
  by (simp add: heappush_def siftdown_length)

lemma heappop_length:
  "heappop lt heap = Some (item, heap') \<Longrightarrow> length heap' < length heap"
  by (auto simp: heappop_def siftup_length split: if_splits)

lemma heapify_list_length: "length (heapify_list lt x) = length x"
proof -
  have "length (foldl (siftup lt) x is) = length x" for "is"
    by (induction "is" arbitrary: x) (simp_all add: siftup_length)
  then show ?thesis by (simp add: heapify_list_def)
qed

text \<open>
  \<^verbatim>\<open>
  def pop(self):
      while self.entries:
          priority, count, request = heapq.heappop(self.entries)
          if request is not self.REMOVED:
              return request
  \<close>
  Falling out of the loop returns Python's \<open>None\<close>: the result \<open>None\<close> here.
\<close>

function queue_pop :: "queue \<Rightarrow> request option \<times> queue" where
  "queue_pop q =
     (case heappop (addr_lt (store q)) (entries q) of
        None \<Rightarrow> (None, q)
      | Some (a, heap') \<Rightarrow>
          (case req (store q ! a) of
             Some request \<Rightarrow> (Some request, q\<lparr>entries := heap'\<rparr>)
           | None \<Rightarrow> queue_pop (q\<lparr>entries := heap'\<rparr>)))"
  by pat_completeness auto
termination
  by (relation "measure (\<lambda>q. length (entries q))") (auto dest: heappop_length)

declare queue_pop.simps [simp del]

text \<open>
  \<^verbatim>\<open>
  @classmethod
  def change_priority(cls, entry, new_priority):
      entry[0] = -new_priority
      if cls.entry_is_active(entry):
          entry[2].priority = new_priority
  \<close>
  on the entry at address \<open>a\<close> of the store. A request is a value here: the new priority
  is written to the request the entry holds. In Python the request is an object, and the
  change is also seen through any other reference to it.
\<close>

definition entry_is_active :: "entry \<Rightarrow> bool" where
  "entry_is_active e = (req e \<noteq> None)"

definition change_priority :: "entry list \<Rightarrow> nat \<Rightarrow> int \<Rightarrow> entry list" where
  "change_priority st a new_priority =
     st[a := (st ! a)\<lparr>neg_priority := - new_priority,
                      req := map_option (\<lambda>r. r\<lparr>priority := new_priority\<rparr>) (req (st ! a))\<rparr>]"

text \<open>\<open>iter_active_entries\<close> and \<open>iter_requests\<close>, in the order of \<open>self.entries\<close>.\<close>

definition iter_active_entries :: "queue \<Rightarrow> nat list" where
  "iter_active_entries q = filter (\<lambda>a. entry_is_active (store q ! a)) (entries q)"

definition iter_requests :: "queue \<Rightarrow> request list" where
  "iter_requests q = List.map_filter (\<lambda>a. req (store q ! a)) (iter_active_entries q)"

text \<open>
  \<^verbatim>\<open>
  @property
  def next_request(self):
      if not self.entries:
          return None
      return self.entries[0][2]

  def _pop_empty(self):
      while self.entries and self.next_request is self.REMOVED:
          heapq.heappop(self.entries)
  \<close>
\<close>

function pop_empty :: "queue \<Rightarrow> queue" where
  "pop_empty q =
     (if entries q \<noteq> [] \<and> req (store q ! hd (entries q)) = None
      then (case heappop (addr_lt (store q)) (entries q) of
              None \<Rightarrow> q
            | Some (a, heap') \<Rightarrow> pop_empty (q\<lparr>entries := heap'\<rparr>))
      else q)"
  by pat_completeness auto
termination
  by (relation "measure (\<lambda>q. length (entries q))") (auto dest: heappop_length)

declare pop_empty.simps [simp del]

text \<open>
  \<^verbatim>\<open>
  def heapify(self):
      heapq.heapify(self.entries)
      self._pop_empty()
  \<close>
\<close>

definition heapify :: "queue \<Rightarrow> queue" where
  "heapify q = pop_empty (q\<lparr>entries := heapify_list (addr_lt (store q)) (entries q)\<rparr>)"

text \<open>
  \<^verbatim>\<open>
  def update_all_priorities(self, compute_priority_func):
      requests = list(self.iter_requests())
      new_priorities = compute_priority_func(requests)
      for entry, priority in zip(self.iter_active_entries(), new_priorities):
          self.change_priority(entry, priority)
      self.heapify()
  \<close>
\<close>

definition update_all_priorities :: "queue \<Rightarrow> (request list \<Rightarrow> int list) \<Rightarrow> queue" where
  "update_all_priorities q compute_priority_func =
     (let requests = iter_requests q;
          new_priorities = compute_priority_func requests;
          st = foldl (\<lambda>st (a, p). change_priority st a p) (store q)
                 (zip (iter_active_entries q) new_priorities)
      in heapify (q\<lparr>store := st\<rparr>))"

text \<open>
  \<^verbatim>\<open>
  def remove_entry(self, entry):
      request = entry[2]
      entry[2] = self.REMOVED
      # move removed entry to the top at next heapify call
      max_prio = 0 if not self.entries else -self.entries[0][0]
      entry[0] = - (max_prio + self.REMOVED_PRIORITY)
      return request
  \<close>
  The result is the former third component of the entry: a request, or \<open>REMOVED\<close> when
  the entry was removed before.
\<close>

definition remove_entry :: "queue \<Rightarrow> nat \<Rightarrow> request option \<times> queue" where
  "remove_entry q a =
     (let request = req (store q ! a);
          max_prio = (if entries q = [] then 0 else - neg_priority (store q ! hd (entries q)))
      in (request,
          q\<lparr>store := (store q)[a := (store q ! a)\<lparr>neg_priority := - (max_prio + REMOVED_PRIORITY),
                                                  req := None\<rparr>]\<rparr>))"

text \<open>
  \<^verbatim>\<open>
  def max_priority(self):
      """ Return maximum request priority in this queue """
      if not self.entries:
          return self.EMPTY_PRIORITY
      return -self.entries[0][0]
  \<close>
\<close>

definition max_priority :: "queue \<Rightarrow> int" where
  "max_priority q =
     (if entries q = [] then EMPTY_PRIORITY else - neg_priority (store q ! hd (entries q)))"

text \<open>\<open>__len__\<close>: the number of entries, removed ones included.\<close>

definition queue_len :: "queue \<Rightarrow> nat" where
  "queue_len q = length (entries q)"

text \<open>
  \<^verbatim>\<open>
  def pop_random(self, n_attempts=10):
      self._pop_empty()
      if not self.entries:
          return
      for i in range(n_attempts):
          entry = random.choice(self.entries)
          if entry[2] is not self.REMOVED:
              request = self.remove_entry(entry)
              return request
  \<close>
  The outcomes of \<open>random.choice\<close> come from outside: \<open>draws\<close> holds one number for each
  attempt, and the entry chosen is the one at that index modulo the number of entries.
\<close>

fun pop_random_attempts :: "queue \<Rightarrow> nat list \<Rightarrow> request option \<times> queue" where
  "pop_random_attempts q [] = (None, q)"
| "pop_random_attempts q (d # draws) =
     (let a = entries q ! (d mod length (entries q))
      in if req (store q ! a) \<noteq> None then remove_entry q a
         else pop_random_attempts q draws)"

definition pop_random :: "queue \<Rightarrow> nat \<Rightarrow> nat list \<Rightarrow> request option \<times> queue" where
  "pop_random q n_attempts draws =
     (let q1 = pop_empty q
      in if entries q1 = [] then (None, q1)
         else pop_random_attempts q1 (take n_attempts draws))"

text \<open>Repeated \<open>pop\<close> until it returns \<open>None\<close>: the requests in the order they come out.\<close>

lemma queue_pop_length:
  "queue_pop q = (Some r, q') \<Longrightarrow> length (entries q') < length (entries q)"
proof (induction q rule: queue_pop.induct)
  case (1 q)
  show ?case
  proof (cases "heappop (addr_lt (store q)) (entries q)")
    case None
    with "1.prems" show ?thesis
      by (subst (asm) queue_pop.simps) simp
  next
    case (Some ah)
    obtain a heap' where ah: "ah = (a, heap')" by (cases ah)
    from Some ah have len: "length heap' < length (entries q)"
      by (auto dest: heappop_length)
    show ?thesis
    proof (cases "req (store q ! a)")
      case None
      with Some ah "1.prems" have "queue_pop (q\<lparr>entries := heap'\<rparr>) = (Some r, q')"
        by (subst (asm) queue_pop.simps) simp
      from "1.IH" [OF Some ah [symmetric] None this] len show ?thesis by simp
    next
      case (Some request)
      with \<open>heappop (addr_lt (store q)) (entries q) = Some ah\<close> ah "1.prems" len
      show ?thesis
        by (subst (asm) queue_pop.simps) auto
    qed
  qed
qed

function drain :: "queue \<Rightarrow> request list" where
  "drain q = (case queue_pop q of
                (None, q') \<Rightarrow> []
              | (Some r, q') \<Rightarrow> r # drain q')"
  by pat_completeness auto
termination
  by (relation "measure (\<lambda>q. length (entries q))")
     (auto dest: queue_pop_length [OF sym])

declare drain.simps [simp del]


section \<open>Heap order\<close>

text \<open>
  What \<open>heapq\<close> maintains, for items compared by a key: every item is at least its
  parent, the item at index \<open>(i - 1) div 2\<close>.
\<close>

definition is_heap :: "('a \<Rightarrow> 'k::linorder) \<Rightarrow> 'a list \<Rightarrow> bool" where
  "is_heap key h = (\<forall>i. 0 < i \<and> i < length h \<longrightarrow> key (h ! ((i - 1) div 2)) \<le> key (h ! i))"

text \<open>
  The key of the entry at an address: the pair that \<open>entry_lt\<close> compares, in
  lexicographic order.
\<close>

definition entry_key :: "entry list \<Rightarrow> nat \<Rightarrow> int \<times> int" where
  "entry_key st a = (neg_priority (st ! a), count (st ! a))"

text \<open>
  A queue in heap order whose entries are pairwise different, hold requests (none is
  removed) and have pairwise different keys.
\<close>

definition live_heap :: "queue \<Rightarrow> bool" where
  "live_heap q =
     (is_heap (entry_key (store q)) (entries q) \<and> distinct (entries q) \<and>
      (\<forall>a\<in>set (entries q). req (store q ! a) \<noteq> None) \<and>
      inj_on (entry_key (store q)) (set (entries q)))"

text \<open>The entries that pushing the requests \<open>rs\<close> into a fresh FIFO queue creates.\<close>

definition fresh_store :: "request list \<Rightarrow> entry list" where
  "fresh_store rs =
     map (\<lambda>i. \<lparr>neg_priority = - priority (rs ! i), count = int i, req = Some (rs ! i)\<rparr>)
       [0..<length rs]"

section \<open>BalancedPriorityQueue\<close>

datatype error = QueueClosed | KeyError | AssertionError

text \<open>
  \<open>queues\<close> is the dict from slot to queue, in insertion order, as an association list
  with unique keys: \<open>map_of\<close> looks a slot up, \<open>AList.update\<close> is \<open>queues[slot] = q\<close>
  (a new key goes to the end) and \<open>AList.delete\<close> removes a key. \<open>batch_size_opt\<close> is the
  attribute \<open>_batch_size\<close> and \<open>buffer\<close> is \<open>_buffer\<close>.
\<close>

record scheduler =
  queues :: "(pyval \<times> queue) list"
  closed_slots :: "pyval set"
  eps :: real
  queue_factory :: "pyval \<Rightarrow> queue"
  balancing_temperature :: real
  batch_size_opt :: "nat option"
  buffer :: "request list"

text \<open>
  \<^verbatim>\<open>
  def __init__(self, queue_factory, eps=0.0, balancing_temperature=1.0, batch_size=None):
      assert balancing_temperature > 0
      self.queues = {}
      self.closed_slots = set()
      ...
      self._buffer = []
  \<close>
\<close>

definition new_scheduler ::
  "(pyval \<Rightarrow> queue) \<Rightarrow> real \<Rightarrow> real \<Rightarrow> nat option \<Rightarrow> error + scheduler" where
  "new_scheduler factory e temperature bs =
     (if temperature > 0
      then Inr \<lparr>queues = [], closed_slots = {}, eps = e, queue_factory = factory,
                balancing_temperature = temperature, batch_size_opt = bs, buffer = []\<rparr>
      else Inl AssertionError)"

text \<open>\<open>self.queues[slot]\<close>, which raises \<open>KeyError\<close> on a missing key.\<close>

definition get_queue :: "scheduler \<Rightarrow> pyval \<Rightarrow> error + queue" where
  "get_queue s slot = (case map_of (queues s) slot of None \<Rightarrow> Inl KeyError | Some q \<Rightarrow> Inr q)"

text \<open>
  \<^verbatim>\<open>
  def push(self, request):
      slot = request.meta.get('scheduler_slot')
      if slot in self.closed_slots:
          raise QueueClosed()
      if slot not in self.queues:
          self.queues[slot] = self.queue_factory(slot)
      self.queues[slot].push(request)
  \<close>
  The result is the exception raised, if any, and the state the call leaves behind.
\<close>

definition push :: "scheduler \<Rightarrow> request \<Rightarrow> (error + unit) \<times> scheduler" where
  "push s request =
     (let slot = meta_get request ''scheduler_slot''
      in if slot \<in> closed_slots s then (Inl QueueClosed, s)
         else
           let s1 = (if map_of (queues s) slot = None
                     then s\<lparr>queues := AList.update slot (queue_factory s slot) (queues s)\<rparr>
                     else s)
           in (case get_queue s1 slot of
                 Inl e \<Rightarrow> (Inl e, s1)
               | Inr q \<Rightarrow>
                   (Inr (), s1\<lparr>queues :=
                      AList.update slot (snd (queue_push q request)) (queues s1)\<rparr>)))"

text \<open>
  \<^verbatim>\<open>
  def close_queue(self, slot):
      self.closed_slots.add(slot)
      queue = self.queues.pop(slot, None) or []
      return len(queue)
  \<close>
  A queue with no entries is false in Python (it has \<open>__len__\<close>), so \<open>or\<close> replaces it,
  like \<open>None\<close>, by the empty list.
\<close>

definition close_queue :: "scheduler \<Rightarrow> pyval \<Rightarrow> nat \<times> scheduler" where
  "close_queue s slot =
     (let s1 = s\<lparr>closed_slots := insert slot (closed_slots s)\<rparr>;
          popped = map_of (queues s1) slot;
          s2 = s1\<lparr>queues := AList.delete slot (queues s1)\<rparr>
      in ((case popped of
             None \<Rightarrow> 0
           | Some q \<Rightarrow> if queue_len q = 0 then 0 else queue_len q), s2))"

text \<open>\<open>__len__\<close>, \<open>get_active_slots\<close> and the property \<open>batch_size\<close>.\<close>

definition scheduler_len :: "scheduler \<Rightarrow> nat" where
  "scheduler_len s = sum_list (map (\<lambda>(slot, q). queue_len q) (queues s)) + length (buffer s)"

definition get_active_slots :: "scheduler \<Rightarrow> pyval list" where
  "get_active_slots s = map fst (filter (\<lambda>(slot, q). queue_len q \<noteq> 0) (queues s))"

definition batch_size :: "scheduler \<Rightarrow> nat" where
  "batch_size s =
     (case batch_size_opt s of
        Some n \<Rightarrow> n
      | None \<Rightarrow> min 1000 (max 1 (length (queues s) div 1000)))"

text \<open>
  The random outcomes one sample of \<open>_pop_many\<close> consumes come from outside: the index of
  the slot \<open>np.random.choice\<close> picks among \<open>all_slots\<close>, the number \<open>random.random()\<close>
  returns, the index of the slot \<open>random.choice(all_slots)\<close> picks, and the numbers for the
  attempts of \<open>pop_random\<close>. Indices are taken modulo the length of the list chosen from.
  The probabilities \<open>p = softmax(weights, t=temperature)\<close> only say how likely each
  outcome of \<open>np.random.choice\<close> is; they are not computed here.
\<close>

record draw =
  chosen :: nat
  coin :: real
  random_slot :: nat
  attempts :: "nat list"

text \<open>
  \<^verbatim>\<open>
  chosen_slots = np.random.choice(all_slots, size=n, replace=True, p=p)
  queues = [self.queues[slot] for slot in chosen_slots]
  is_random = [False] * len(queues)
  for idx in range(len(queues)):
      random_policy = random.random() < (self.eps or 0.0)
      if random_policy:
          is_random[idx] = True
          queues[idx] = self.queues[random.choice(all_slots)]
  \<close>
  For one sample: the flag and the slot of the queue it ends up with. The queue objects
  are the values of \<open>self.queues\<close>, so a queue is named by its slot.
\<close>

definition choose_queue :: "scheduler \<Rightarrow> pyval list \<Rightarrow> draw \<Rightarrow> bool \<times> pyval" where
  "choose_queue s all_slots d =
     (let random_policy = (coin d < (if eps s = 0 then 0 else eps s))
      in if random_policy
         then (True, all_slots ! (random_slot d mod length all_slots))
         else (False, all_slots ! (chosen d mod length all_slots)))"

text \<open>
  \<^verbatim>\<open>
  requests = []
  for random_policy, queue in zip(is_random, queues):
      request = queue.pop_random() if random_policy else queue.pop()
      if request is not None:
          request.meta['from_random_policy'] = random_policy
          requests.append(request)
  return requests
  \<close>
\<close>

fun pop_requests ::
  "scheduler \<Rightarrow> ((bool \<times> pyval) \<times> draw) list \<Rightarrow> error + (request list \<times> scheduler)" where
  "pop_requests s [] = Inr ([], s)"
| "pop_requests s (((random_policy, slot), d) # rest) =
     (case get_queue s slot of
        Inl e \<Rightarrow> Inl e
      | Inr queue \<Rightarrow>
          (case (if random_policy then pop_random queue 10 (attempts d) else queue_pop queue) of
             (request, queue') \<Rightarrow>
               (case pop_requests (s\<lparr>queues := AList.update slot queue' (queues s)\<rparr>) rest of
                  Inl e \<Rightarrow> Inl e
                | Inr (requests, s') \<Rightarrow>
                    (case request of
                       None \<Rightarrow> Inr (requests, s')
                     | Some r \<Rightarrow>
                         Inr (meta_set r ''from_random_policy'' (PyBool random_policy) # requests,
                              s')))))"

text \<open>
  \<^verbatim>\<open>
  def _pop_many(self, n):
      all_slots = list(self.queues.keys())
      if not all_slots:
          return []
      ...
  \<close>
  \<open>draws idx\<close> holds the random outcomes of sample \<open>idx\<close>. The exceptions that \<open>softmax\<close>
  and \<open>np.random.choice\<close> can raise on the weights (probabilities that are not numbers,
  priorities too large for an array of machine integers) and the conversion of the slot
  keys to a numpy array are not part of this model: here \<open>_pop_many\<close> always draws.
\<close>

definition pop_many ::
  "scheduler \<Rightarrow> nat \<Rightarrow> (nat \<Rightarrow> draw) \<Rightarrow> error + (request list \<times> scheduler)" where
  "pop_many s n draws =
     (let all_slots = map fst (queues s)
      in if all_slots = [] then Inr ([], s)
         else pop_requests s
                (map (\<lambda>idx. (choose_queue s all_slots (draws idx), draws idx)) [0..<n]))"

text \<open>
  \<^verbatim>\<open>
  def pop(self):
      if not self._buffer:
          self._buffer.extend(self._pop_many(self.batch_size))
      if self._buffer:
          return self._buffer.pop()
  \<close>
\<close>

definition pop ::
  "scheduler \<Rightarrow> (nat \<Rightarrow> draw) \<Rightarrow> error + (request option \<times> scheduler)" where
  "pop s draws =
     (case (if buffer s = []
            then (case pop_many s (batch_size s) draws of
                    Inl e \<Rightarrow> Inl e
                  | Inr (requests, s1) \<Rightarrow> Inr (s1\<lparr>buffer := buffer s1 @ requests\<rparr>))
            else Inr s) of
        Inl e \<Rightarrow> Inl e
      | Inr s2 \<Rightarrow>
          if buffer s2 \<noteq> []
          then Inr (Some (last (buffer s2)), s2\<lparr>buffer := butlast (buffer s2)\<rparr>)
          else Inr (None, s2))"

section \<open>Link extraction\<close>

text \<open>
  \<^verbatim>\<open>
  _NEW_IGNORED = {'7z', '7zip', 'xz', 'gz', 'tar', 'bz2', 'cdr', 'apk'}
  _IGNORED = set(IGNORED_EXTENSIONS) | _NEW_IGNORED
  _IGNORED = {'.' + e for e in _IGNORED}
  \<close>
  \<open>IGNORED_EXTENSIONS\<close> is Scrapy's list, a parameter here.
\<close>

definition NEW_IGNORED :: "string set" where
  "NEW_IGNORED = {''7z'', ''7zip'', ''xz'', ''gz'', ''tar'', ''bz2'', ''cdr'', ''apk''}"

definition IGNORED :: "string set \<Rightarrow> string set" where
  "IGNORED IGNORED_EXTENSIONS = (\<lambda>e. ''.'' @ e) ` (IGNORED_EXTENSIONS \<union> NEW_IGNORED)"

text \<open>
  \<open>strip_prefix p s\<close> is the rest of \<open>s\<close> after its prefix \<open>p\<close>, if \<open>s\<close> starts with \<open>p\<close>;
  \<open>contains sub s\<close> is Python's \<open>sub in s\<close> on strings.
\<close>

fun strip_prefix :: "string \<Rightarrow> string \<Rightarrow> string option" where
  "strip_prefix [] s = Some s"
| "strip_prefix (p # ps) [] = None"
| "strip_prefix (p # ps) (c # cs) = (if p = c then strip_prefix ps cs else None)"

fun contains :: "string \<Rightarrow> string \<Rightarrow> bool" where
  "contains sub [] = (sub = [])"
| "contains sub (c # cs) = (strip_prefix sub (c # cs) \<noteq> None \<or> contains sub cs)"

text \<open>
  \<^verbatim>\<open>
  js_link_search = re.compile(
      r"(javascript:)?location\.href=['\"](?P<url>.+)['\"]").search
  def extract_js_link(href):
      m = js_link_search(href)
      if m:
          return m.group('url')
  \<close>
  The regular expression, piece by piece. \<open>url_group\<close> is the group \<open>(?P<url>.+)\<close>
  followed by the closing quote, on the text after the opening quote: \<open>.\<close> matches any
  character but a newline and \<open>+\<close> is greedy, so the group is the longest non-empty
  newline-free prefix that a quote follows. \<open>match_tail\<close> is the pattern from
  \<open>location\<close> on, \<open>match_here\<close> the whole pattern at the start of the text (with and, on
  failure, without the optional \<open>javascript:\<close>), and \<open>search\<close> takes the leftmost
  position where the pattern matches.
\<close>

definition is_quote :: "char \<Rightarrow> bool" where
  "is_quote c = (c = CHR 0x27 \<or> c = CHR 0x22)"

definition url_group :: "string \<Rightarrow> string option" where
  "url_group rest =
     (let run = takeWhile (\<lambda>c. c \<noteq> CHR 0x0A) rest;
          ks = filter (\<lambda>k. is_quote (run ! k)) [1..<length run]
      in if ks = [] then None else Some (take (last ks) run))"

definition match_tail :: "string \<Rightarrow> string option" where
  "match_tail s =
     (case strip_prefix ''location.href='' s of
        None \<Rightarrow> None
      | Some [] \<Rightarrow> None
      | Some (q # rest) \<Rightarrow> if is_quote q then url_group rest else None)"

definition match_here :: "string \<Rightarrow> string option" where
  "match_here s =
     (case strip_prefix ''javascript:'' s of
        None \<Rightarrow> match_tail s
      | Some s' \<Rightarrow> (case match_tail s' of Some u \<Rightarrow> Some u | None \<Rightarrow> match_tail s))"

fun js_link_search :: "string \<Rightarrow> string option" where
  "js_link_search [] = match_here []"
| "js_link_search (c # cs) =
     (case match_here (c # cs) of Some u \<Rightarrow> Some u | None \<Rightarrow> js_link_search cs)"

definition extract_js_link :: "string \<Rightarrow> string option" where
  "extract_js_link href = js_link_search href"

text \<open>
  The body of the loop of \<open>extract_link_dicts\<close>, for one \<open>a\<close> element with the attributes
  \<open>attrs\<close>: the link it yields, or \<open>None\<close> when it \<open>continue\<close>s.
  \<^verbatim>\<open>
  attrs = a.root.attrib
  if 'href' not in attrs:
      continue
  href = attrs['href']
  if 'mailto:' in href:
      continue
  js_link = extract_js_link(href)
  if js_link:
      href = js_link
      link['js'] = True
  url = urljoin(base_url, href)
  if url_has_any_extension(url, _IGNORED):
      continue
  link['url'] = url
  link['attrs'] = dict(attrs)
  \<close>
  \<open>urljoin\<close> (urllib) and \<open>url_has_any_extension\<close> (Scrapy) are parameters. \<open>link_js\<close> says
  whether the link has the key \<open>js\<close>. The key \<open>inside_text\<close>, the text of the element, has
  no part in what is yielded and is left out.
\<close>

record link =
  link_js :: bool
  link_url :: string
  link_attrs :: "(string \<times> string) list"

definition extract_link_dict ::
  "(string \<Rightarrow> string \<Rightarrow> string) \<Rightarrow> (string \<Rightarrow> string set \<Rightarrow> bool) \<Rightarrow> string set \<Rightarrow>
   string \<Rightarrow> (string \<times> string) list \<Rightarrow> link option" where
  "extract_link_dict urljoin url_has_any_extension IGNORED_EXTENSIONS base_url attrs =
     (case map_of attrs ''href'' of
        None \<Rightarrow> None
      | Some href0 \<Rightarrow>
          if contains ''mailto:'' href0 then None
          else
            (case (case extract_js_link href0 of
                     None \<Rightarrow> (href0, False)
                   | Some js_link \<Rightarrow> if js_link \<noteq> [] then (js_link, True) else (href0, False)) of
               (href, js) \<Rightarrow>
                 let url = urljoin base_url href
                 in if url_has_any_extension url (IGNORED IGNORED_EXTENSIONS) then None
                    else Some \<lparr>link_js = js, link_url = url, link_attrs = attrs\<rparr>))"

definition extract_link_dicts ::
  "(string \<Rightarrow> string \<Rightarrow> string) \<Rightarrow> (string \<Rightarrow> string set \<Rightarrow> bool) \<Rightarrow> string set \<Rightarrow>
   string \<Rightarrow> (string \<times> string) list list \<Rightarrow> link list" where
  "extract_link_dicts urljoin url_has_any_extension IGNORED_EXTENSIONS base_url anchors =
     List.map_filter
       (extract_link_dict urljoin url_has_any_extension IGNORED_EXTENSIONS base_url) anchors"


text \<open>
  \<open>from_random_policy r\<close>: the request carries \<open>meta['from_random_policy'] = True\<close>.
\<close>

definition from_random_policy :: "request \<Rightarrow> bool" where
  "from_random_policy r = (meta_get r ''from_random_policy'' = PyBool True)"

text \<open>
  The states a scheduler can be in: the constructor makes the first one; \<open>push\<close>, \<open>pop\<close>
  and \<open>close_queue\<close> lead from one to the next; and the owner of the queues reached through
  \<open>get_queue\<close> may change what they hold in any way (\<open>update_all_priorities\<close>,
  \<open>remove_entry\<close>, ...). \<open>random.random()\<close> returns a number in \<open>[0, 1)\<close>.
\<close>

inductive reachable :: "scheduler \<Rightarrow> bool" where
  new: "new_scheduler factory e temperature bs = Inr s \<Longrightarrow> reachable s"
| push: "reachable s \<Longrightarrow> push s request = (res, s') \<Longrightarrow> reachable s'"
| pop: "reachable s \<Longrightarrow> \<forall>idx. 0 \<le> coin (draws idx) \<and> coin (draws idx) < 1 \<Longrightarrow>
        pop s draws = Inr (res, s') \<Longrightarrow> reachable s'"
| close_queue: "reachable s \<Longrightarrow> close_queue s slot = (n, s') \<Longrightarrow> reachable s'"
| queues: "reachable s \<Longrightarrow> reachable (s\<lparr>queues := qs\<rparr>)"

section \<open>Scenarios\<close>

text \<open>The requests of a scenario are pushed one after the other; the handles are dropped.\<close>

definition push_all :: "queue \<Rightarrow> request list \<Rightarrow> queue" where
  "push_all q rs = foldl (\<lambda>q r. snd (queue_push q r)) q rs"

text \<open>A scheduler as the constructor leaves it, with FIFO queues and automatic batch size.\<close>

definition example_scheduler :: "real \<Rightarrow> scheduler" where
  "example_scheduler e =
     \<lparr>queues = [], closed_slots = {}, eps = e, queue_factory = (\<lambda>slot. init_queue True),
      balancing_temperature = 1, batch_size_opt = None, buffer = []\<rparr>"

text \<open>
  Scenario E: five requests for the slot \<open>d1\<close> and three for \<open>d2\<close> are pushed into a new
  scheduler.
\<close>

definition slot_request :: "string \<Rightarrow> string \<Rightarrow> int \<Rightarrow> request" where
  "slot_request slot u p = \<lparr>url = u, priority = p, meta = [(''scheduler_slot'', PyStr slot)]\<rparr>"

definition push_requests :: "scheduler \<Rightarrow> request list \<Rightarrow> scheduler" where
  "push_requests s rs = foldl (\<lambda>s r. snd (push s r)) s rs"

definition scenario_E :: scheduler where
  "scenario_E = push_requests (example_scheduler 0)
     [slot_request ''d1'' ''a'' 1, slot_request ''d2'' ''b'' 2, slot_request ''d1'' ''c'' 3,
      slot_request ''d1'' ''d'' 4, slot_request ''d2'' ''e'' 5, slot_request ''d1'' ''f'' 6,
      slot_request ''d2'' ''g'' 7, slot_request ''d1'' ''h'' 8]"

section \<open>Properties of RequestsPriorityQueue\<close>

lemmas heap_eval =
  init_queue_def queue_push_def heappush_def siftdown_def siftdown_loop.simps
  addr_lt_def entry_lt_def drain.simps queue_pop.simps heappop_def siftup_def
  siftup_loop.simps smaller_child_def pop_empty.simps heapify_def heapify_list_def
  update_all_priorities_def change_priority_def iter_requests_def iter_active_entries_def
  entry_is_active_def remove_entry_def max_priority_def List.map_filter_def
  REMOVED_PRIORITY_def EMPTY_PRIORITY_def FLOAT_PRIORITY_MULTIPLIER_def push_all_def

lemma example_scheduler_new:
  "new_scheduler (\<lambda>slot. init_queue True) e 1 None = Inr (example_scheduler e)"
  by (simp add: new_scheduler_def example_scheduler_def)

subsection \<open>The heap operations keep the heap order\<close>

text \<open>
  \<open>_siftdown\<close> towards the root and \<open>_siftup\<close> from the root move a hole through the
  heap; the hypotheses say which parent-child pairs are in order while the hole is at
  \<open>pos\<close>.
\<close>

lemma mset_move_hole:
  assumes "i < length h" "j < length h" "i \<noteq> j"
  shows "mset (h[i := h ! j, j := x]) = mset (h[i := x])"
proof -
  let ?L = "h[i := x]"
  from assms have "mset (?L[j := ?L ! i, i := ?L ! j]) = mset ?L"
    by (intro mset_swap) simp_all
  moreover from assms have "?L[j := ?L ! i, i := ?L ! j] = h[i := h ! j, j := x]"
    by (simp add: list_update_swap [of i j])
  ultimately show ?thesis by simp
qed

lemma siftdown_loop_heap:
  fixes key :: "'a \<Rightarrow> 'k::linorder"
  assumes "siftdown_loop (\<lambda>a b. key a < key b) x 0 h pos = (h', pos')"
    and "pos < length h"
    and "\<forall>i. 0 < i \<and> i < length h \<and> i \<noteq> pos \<longrightarrow> key (h ! ((i - 1) div 2)) \<le> key (h ! i)"
    and "\<forall>c. 0 < c \<and> c < length h \<and> (c - 1) div 2 = pos \<longrightarrow>
           key x \<le> key (h ! c) \<and> (0 < pos \<longrightarrow> key (h ! ((pos - 1) div 2)) \<le> key (h ! c))"
  shows "is_heap key (h'[pos' := x]) \<and> mset (h'[pos' := x]) = mset (h[pos := x])"
  using assms
proof (induction pos arbitrary: h rule: less_induct)
  case (less pos)
  note loop = less.prems(1) and len = less.prems(2) and edges = less.prems(3)
    and below = less.prems(4)
  let ?pp = "(pos - 1) div 2"
  show ?case
  proof (cases "0 < pos \<and> key x < key (h ! ?pp)")
    case True
    let ?h1 = "h[pos := h ! ?pp]"
    from True have pp: "?pp < pos" by arith
    from loop True have rec: "siftdown_loop (\<lambda>a b. key a < key b) x 0 ?h1 ?pp = (h', pos')"
      by (subst (asm) siftdown_loop.simps) simp
    from pp len have len1: "?pp < length ?h1" by simp
    have edges1: "\<forall>i. 0 < i \<and> i < length ?h1 \<and> i \<noteq> ?pp \<longrightarrow>
        key (?h1 ! ((i - 1) div 2)) \<le> key (?h1 ! i)"
    proof (intro allI impI)
      fix i assume i: "0 < i \<and> i < length ?h1 \<and> i \<noteq> ?pp"
      show "key (?h1 ! ((i - 1) div 2)) \<le> key (?h1 ! i)"
      proof (cases "i = pos")
        case True
        with pp len show ?thesis by simp
      next
        case ne: False
        show ?thesis
        proof (cases "(i - 1) div 2 = pos")
          case True
          with below i \<open>0 < pos \<and> key x < key (h ! ?pp)\<close>
          have "key (h ! ?pp) \<le> key (h ! i)" by simp
          with True ne len show ?thesis by simp
        next
          case False
          with ne i edges show ?thesis by simp
        qed
      qed
    qed
    have below1: "\<forall>c. 0 < c \<and> c < length ?h1 \<and> (c - 1) div 2 = ?pp \<longrightarrow>
           key x \<le> key (?h1 ! c) \<and> (0 < ?pp \<longrightarrow> key (?h1 ! ((?pp - 1) div 2)) \<le> key (?h1 ! c))"
    proof (intro allI impI)
      fix c assume c: "0 < c \<and> c < length ?h1 \<and> (c - 1) div 2 = ?pp"
      have up: "0 < ?pp \<longrightarrow> key (h ! ((?pp - 1) div 2)) \<le> key (h ! ?pp)"
        using edges pp len by simp
      have ppp: "0 < ?pp \<longrightarrow> (?pp - 1) div 2 \<noteq> pos"
        using pp by arith
      have cval: "key (h ! ?pp) \<le> key (?h1 ! c)"
      proof (cases "c = pos")
        case True
        with len show ?thesis by simp
      next
        case False
        with c edges have "key (h ! ?pp) \<le> key (h ! c)" by auto
        with False show ?thesis by simp
      qed
      with True up ppp show "key x \<le> key (?h1 ! c) \<and>
          (0 < ?pp \<longrightarrow> key (?h1 ! ((?pp - 1) div 2)) \<le> key (?h1 ! c))"
        by auto
    qed
    from less.IH [OF pp rec len1 edges1 below1]
    have "is_heap key (h'[pos' := x])" "mset (h'[pos' := x]) = mset (?h1[?pp := x])"
      by simp_all
    moreover from pp len have "mset (?h1[?pp := x]) = mset (h[pos := x])"
      by (intro mset_move_hole) simp_all
    ultimately show ?thesis by simp
  next
    case False
    with loop have "(h, pos) = (h', pos')"
      by (subst (asm) siftdown_loop.simps) (auto split: if_splits)
    then have res: "h' = h" "pos' = pos" by simp_all
    have "is_heap key (h[pos := x])"
      unfolding is_heap_def
    proof (intro allI impI)
      fix i assume i: "0 < i \<and> i < length (h[pos := x])"
      show "key (h[pos := x] ! ((i - 1) div 2)) \<le> key (h[pos := x] ! i)"
      proof (cases "i = pos")
        case True
        with i have "?pp \<noteq> pos" by arith
        with True i False len show ?thesis by auto
      next
        case ne: False
        show ?thesis
        proof (cases "(i - 1) div 2 = pos")
          case True
          with below i ne len show ?thesis by simp
        next
          case False
          with ne i edges show ?thesis by simp
        qed
      qed
    qed
    with res show ?thesis by simp
  qed
qed


lemma smaller_child_cases:
  fixes key :: "'a \<Rightarrow> 'k::linorder"
  assumes "2 * pos + 1 < length h"
  defines "c \<equiv> smaller_child (\<lambda>a b. key a < key b) h pos"
  shows "c < length h" "(c - 1) div 2 = pos" "pos < c"
    and "\<forall>i. 0 < i \<and> i < length h \<and> (i - 1) div 2 = pos \<longrightarrow> key (h ! c) \<le> key (h ! i)"
proof -
  show "c < length h" "(c - 1) div 2 = pos" "pos < c"
    using assms(1) by (auto simp: c_def smaller_child_def)
  show "\<forall>i. 0 < i \<and> i < length h \<and> (i - 1) div 2 = pos \<longrightarrow> key (h ! c) \<le> key (h ! i)"
  proof (intro allI impI)
    fix i assume i: "0 < i \<and> i < length h \<and> (i - 1) div 2 = pos"
    then have "i = 2 * pos + 1 \<or> i = 2 * pos + 2" by arith
    with i show "key (h ! c) \<le> key (h ! i)"
      by (auto simp: c_def smaller_child_def)
  qed
qed

lemma siftup_loop_heap:
  fixes key :: "'a \<Rightarrow> 'k::linorder"
  assumes "siftup_loop (\<lambda>a b. key a < key b) h pos = (h', pos')"
    and "pos < length h"
    and "\<forall>i. 0 < i \<and> i < length h \<and> (i - 1) div 2 \<noteq> pos \<longrightarrow>
           key (h ! ((i - 1) div 2)) \<le> key (h ! i)"
    and "0 < pos \<longrightarrow> (\<forall>c. 0 < c \<and> c < length h \<and> (c - 1) div 2 = pos \<longrightarrow>
           key (h ! ((pos - 1) div 2)) \<le> key (h ! c))"
  shows "pos' < length h' \<and> length h' \<le> 2 * pos' + 1
       \<and> (\<forall>i. 0 < i \<and> i < length h' \<longrightarrow> key (h' ! ((i - 1) div 2)) \<le> key (h' ! i))
       \<and> mset (h'[pos' := x]) = mset (h[pos := x])"
  using assms
proof (induction "length h - pos" arbitrary: h pos rule: less_induct)
  case less
  note loop = less.prems(1) and len = less.prems(2) and edges = less.prems(3)
    and above = less.prems(4)
  show ?case
  proof (cases "2 * pos + 1 < length h")
    case True
    define c where "c = smaller_child (\<lambda>a b. key a < key b) h pos"
    let ?h1 = "h[pos := h ! c]"
    note sc = smaller_child_cases [OF True, of key, folded c_def]
    from loop True have rec: "siftup_loop (\<lambda>a b. key a < key b) ?h1 c = (h', pos')"
      by (subst (asm) siftup_loop.simps) (simp add: c_def)
    from sc have less1: "length ?h1 - c < length h - pos" and len1: "c < length ?h1"
      by simp_all
    have edges1: "\<forall>i. 0 < i \<and> i < length ?h1 \<and> (i - 1) div 2 \<noteq> c \<longrightarrow>
           key (?h1 ! ((i - 1) div 2)) \<le> key (?h1 ! i)"
    proof (intro allI impI)
      fix i assume i: "0 < i \<and> i < length ?h1 \<and> (i - 1) div 2 \<noteq> c"
      show "key (?h1 ! ((i - 1) div 2)) \<le> key (?h1 ! i)"
      proof (cases "i = pos")
        case True
        with i have "(pos - 1) div 2 \<noteq> pos" by arith
        with True i above sc len show ?thesis by simp
      next
        case ne: False
        show ?thesis
        proof (cases "(i - 1) div 2 = pos")
          case True
          with sc(4) i have "key (h ! c) \<le> key (h ! i)" by simp
          with True ne len show ?thesis by simp
        next
          case False
          with ne i edges show ?thesis by simp
        qed
      qed
    qed
    have above1: "0 < c \<longrightarrow> (\<forall>d. 0 < d \<and> d < length ?h1 \<and> (d - 1) div 2 = c \<longrightarrow>
           key (?h1 ! ((c - 1) div 2)) \<le> key (?h1 ! d))"
    proof (intro allI impI)
      fix d assume d: "0 < d \<and> d < length ?h1 \<and> (d - 1) div 2 = c"
      with sc have dp: "d \<noteq> pos" "(d - 1) div 2 \<noteq> pos" by auto
      with d edges have "key (h ! c) \<le> key (h ! d)" by auto
      with dp sc len show "key (?h1 ! ((c - 1) div 2)) \<le> key (?h1 ! d)" by simp
    qed
    from less.hyps [OF less1 rec len1 edges1 above1]
    have "pos' < length h'" "length h' \<le> 2 * pos' + 1"
      "\<forall>i. 0 < i \<and> i < length h' \<longrightarrow> key (h' ! ((i - 1) div 2)) \<le> key (h' ! i)"
      "mset (h'[pos' := x]) = mset (?h1[c := x])"
      by simp_all
    moreover from sc len have "mset (?h1[c := x]) = mset (h[pos := x])"
      by (intro mset_move_hole) simp_all
    ultimately show ?thesis by simp
  next
    case False
    with loop have "(h, pos) = (h', pos')"
      by (subst (asm) siftup_loop.simps) simp
    then have res: "h' = h" "pos' = pos" by simp_all
    have "\<forall>i. 0 < i \<and> i < length h \<longrightarrow> key (h ! ((i - 1) div 2)) \<le> key (h ! i)"
    proof (intro allI impI)
      fix i assume i: "0 < i \<and> i < length h"
      with False have "(i - 1) div 2 \<noteq> pos" by arith
      with i edges show "key (h ! ((i - 1) div 2)) \<le> key (h ! i)" by simp
    qed
    with res len False show ?thesis by simp
  qed
qed

lemma siftup_heap:
  fixes key :: "'a \<Rightarrow> 'k::linorder"
  assumes "h \<noteq> []"
    and "\<forall>i. 0 < i \<and> i < length h \<and> (i - 1) div 2 \<noteq> 0 \<longrightarrow>
           key (h ! ((i - 1) div 2)) \<le> key (h ! i)"
  shows "is_heap key (siftup (\<lambda>a b. key a < key b) h 0)
       \<and> mset (siftup (\<lambda>a b. key a < key b) h 0) = mset h"
proof -
  let ?lt = "\<lambda>a b. key a < key b"
  let ?x = "h ! 0"
  obtain h' pos' where up: "siftup_loop ?lt h 0 = (h', pos')"
    by (cases "siftup_loop ?lt h 0")
  from assms(1) have len: "0 < length h" by simp
  from siftup_loop_heap [OF up len assms(2), of ?x]
  have p: "pos' < length h'" and leaf: "length h' \<le> 2 * pos' + 1"
    and edges: "\<forall>i. 0 < i \<and> i < length h' \<longrightarrow> key (h' ! ((i - 1) div 2)) \<le> key (h' ! i)"
    and ms: "mset (h'[pos' := ?x]) = mset h"
    by simp_all
  let ?h1 = "h'[pos' := ?x]"
  obtain h'' pos'' where down: "siftdown_loop ?lt ?x 0 ?h1 pos' = (h'', pos'')"
    by (cases "siftdown_loop ?lt ?x 0 ?h1 pos'")
  from p have len1: "pos' < length ?h1" by simp
  have edges1: "\<forall>i. 0 < i \<and> i < length ?h1 \<and> i \<noteq> pos' \<longrightarrow>
      key (?h1 ! ((i - 1) div 2)) \<le> key (?h1 ! i)"
  proof (intro allI impI)
    fix i assume i: "0 < i \<and> i < length ?h1 \<and> i \<noteq> pos'"
    with leaf have "(i - 1) div 2 \<noteq> pos'" by simp arith
    with i edges show "key (?h1 ! ((i - 1) div 2)) \<le> key (?h1 ! i)" by simp
  qed
  have below1: "\<forall>c. 0 < c \<and> c < length ?h1 \<and> (c - 1) div 2 = pos' \<longrightarrow>
      key ?x \<le> key (?h1 ! c) \<and> (0 < pos' \<longrightarrow> key (?h1 ! ((pos' - 1) div 2)) \<le> key (?h1 ! c))"
  proof (intro allI impI)
    fix c assume c: "0 < c \<and> c < length ?h1 \<and> (c - 1) div 2 = pos'"
    with leaf have False by simp arith
    then show "key ?x \<le> key (?h1 ! c) \<and>
        (0 < pos' \<longrightarrow> key (?h1 ! ((pos' - 1) div 2)) \<le> key (?h1 ! c))" ..
  qed
  from siftdown_loop_heap [OF down len1 edges1 below1]
  have "is_heap key (h''[pos'' := ?x])" "mset (h''[pos'' := ?x]) = mset ?h1"
    by simp_all
  moreover from up down p have "siftup ?lt h 0 = h''[pos'' := ?x]"
    by (simp add: siftup_def siftdown_def)
  ultimately show ?thesis using ms by simp
qed

lemma heappush_heap:
  fixes key :: "'a \<Rightarrow> 'k::linorder"
  assumes "is_heap key h"
  shows "is_heap key (heappush (\<lambda>a b. key a < key b) h x)
       \<and> mset (heappush (\<lambda>a b. key a < key b) h x) = add_mset x (mset h)"
proof -
  let ?lt = "\<lambda>a b. key a < key b"
  let ?h1 = "h @ [x]"
  obtain h'' pos'' where down: "siftdown_loop ?lt x 0 ?h1 (length h) = (h'', pos'')"
    by (cases "siftdown_loop ?lt x 0 ?h1 (length h)")
  have len1: "length h < length ?h1" by simp
  have edges1: "\<forall>i. 0 < i \<and> i < length ?h1 \<and> i \<noteq> length h \<longrightarrow>
      key (?h1 ! ((i - 1) div 2)) \<le> key (?h1 ! i)"
  proof (intro allI impI)
    fix i assume i: "0 < i \<and> i < length ?h1 \<and> i \<noteq> length h"
    then have "i < length h" by simp
    then have "(i - 1) div 2 < length h" by arith
    note \<open>i < length h\<close> this
    with i assms show "key (?h1 ! ((i - 1) div 2)) \<le> key (?h1 ! i)"
      by (simp add: is_heap_def nth_append)
  qed
  have below1: "\<forall>c. 0 < c \<and> c < length ?h1 \<and> (c - 1) div 2 = length h \<longrightarrow>
      key x \<le> key (?h1 ! c) \<and>
      (0 < length h \<longrightarrow> key (?h1 ! ((length h - 1) div 2)) \<le> key (?h1 ! c))"
  proof (intro allI impI)
    fix c assume c: "0 < c \<and> c < length ?h1 \<and> (c - 1) div 2 = length h"
    then have False by simp arith
    then show "key x \<le> key (?h1 ! c) \<and>
      (0 < length h \<longrightarrow> key (?h1 ! ((length h - 1) div 2)) \<le> key (?h1 ! c))" ..
  qed
  from siftdown_loop_heap [OF down len1 edges1 below1]
  have "is_heap key (h''[pos'' := x])" "mset (h''[pos'' := x]) = mset (?h1[length h := x])"
    by simp_all
  moreover from down have "heappush ?lt h x = h''[pos'' := x]"
    by (simp add: heappush_def siftdown_def)
  ultimately show ?thesis by simp
qed

lemma heappop_heap:
  fixes key :: "'a \<Rightarrow> 'k::linorder"
  assumes "is_heap key h" and "h \<noteq> []"
  shows "\<exists>h'. heappop (\<lambda>a b. key a < key b) h = Some (hd h, h')
       \<and> is_heap key h' \<and> add_mset (hd h) (mset h') = mset h"
proof (cases "butlast h = []")
  case True
  with assms(2) have "h = [hd h]"
    by (cases h) (auto split: if_splits)
  then have "last h = hd h" "mset h = {#hd h#}"
    by (metis last.simps, metis mset.simps(1) mset.simps(2))
  with True assms(2) show ?thesis
    by (simp add: heappop_def is_heap_def)
next
  case False
  let ?lt = "\<lambda>a b. key a < key b"
  let ?h0 = "(butlast h)[0 := last h]"
  from False have ne: "?h0 \<noteq> []" by simp
  have edges: "\<forall>i. 0 < i \<and> i < length ?h0 \<and> (i - 1) div 2 \<noteq> 0 \<longrightarrow>
           key (?h0 ! ((i - 1) div 2)) \<le> key (?h0 ! i)"
  proof (intro allI impI)
    fix i assume i: "0 < i \<and> i < length ?h0 \<and> (i - 1) div 2 \<noteq> 0"
    then have "i < length h - 1" by simp
    then have "i < length h" "(i - 1) div 2 < length h - 1" by arith+
    with i assms(1) show "key (?h0 ! ((i - 1) div 2)) \<le> key (?h0 ! i)"
      by (simp add: is_heap_def nth_butlast)
  qed
  from siftup_heap [OF ne edges]
  have h: "is_heap key (siftup ?lt ?h0 0)" and ms: "mset (siftup ?lt ?h0 0) = mset ?h0"
    by simp_all
  from False have bl: "0 < length (butlast h)" by (cases "butlast h") simp_all
  from False have hd: "butlast h ! 0 = hd h"
    by (cases h) (auto simp: hd_conv_nth split: if_splits)
  from bl have "hd h \<in># mset (butlast h)"
    using hd nth_mem_mset by metis
  then have "add_mset (hd h) (mset ?h0) = add_mset (last h) (mset (butlast h))"
    using bl hd by (simp add: mset_update)
  also from assms(2) have "\<dots> = mset h"
    by (metis append_butlast_last_id mset.simps(2) mset_append union_mset_add_mset_right
        add.right_neutral mset.simps(1))
  finally have "add_mset (hd h) (mset (siftup ?lt ?h0 0)) = mset h"
    using ms by simp
  with h False assms(2) show ?thesis
    by (simp add: heappop_def)
qed

lemma heap_root_min:
  fixes key :: "'a \<Rightarrow> 'k::linorder"
  assumes "is_heap key h" and "i < length h"
  shows "key (h ! 0) \<le> key (h ! i)"
  using assms(2)
proof (induction i rule: less_induct)
  case (less i)
  show ?case
  proof (cases "i = 0")
    case True
    then show ?thesis by simp
  next
    case False
    then have p: "(i - 1) div 2 < i" by arith
    with less.prems have "(i - 1) div 2 < length h" by simp
    from less.IH [OF p this] have "key (h ! 0) \<le> key (h ! ((i - 1) div 2))" .
    also from assms(1) False less.prems have "\<dots> \<le> key (h ! i)"
      by (simp add: is_heap_def)
    finally show ?thesis .
  qed
qed

subsection \<open>Pops of a fresh queue\<close>

lemma addr_lt_key: "addr_lt st = (\<lambda>a b. entry_key st a < entry_key st b)"
  by (auto simp: addr_lt_def entry_lt_def entry_key_def fun_eq_iff)

lemma is_heap_cong:
  assumes "\<forall>a\<in>set h. key a = key' a"
  shows "is_heap key h = is_heap key' h"
proof -
  have "key (h ! i) = key' (h ! i)" if "i < length h" for i
    using assms that by simp
  moreover have "(i - 1) div 2 < length h" if "i < length h" for i
    using that by arith
  ultimately show ?thesis
    unfolding is_heap_def by auto
qed

lemma drain_sorted:
  assumes "live_heap q"
  shows "\<exists>as. drain q = map (\<lambda>a. the (req (store q ! a))) as \<and> mset as = mset (entries q)
       \<and> sorted_wrt (\<lambda>a b. entry_key (store q) a < entry_key (store q) b) as"
  using assms
proof (induction "length (entries q)" arbitrary: q rule: less_induct)
  case less
  let ?key = "entry_key (store q)"
  note inv = less.prems [unfolded live_heap_def]
  show ?case
  proof (cases "entries q = []")
    case True
    then have "queue_pop q = (None, q)"
      by (subst queue_pop.simps) (simp add: heappop_def)
    then have "drain q = []"
      by (subst drain.simps) simp
    with True show ?thesis by simp
  next
    case False
    from inv have heap: "is_heap ?key (entries q)" by simp
    from heappop_heap [OF heap False] obtain h' where
      hp: "heappop (addr_lt (store q)) (entries q) = Some (hd (entries q), h')"
      and heap': "is_heap ?key h'"
      and ms: "add_mset (hd (entries q)) (mset h') = mset (entries q)"
      by (auto simp: addr_lt_key)
    let ?a = "hd (entries q)"
    let ?q' = "q\<lparr>entries := h'\<rparr>"
    from False have a_in: "?a \<in> set (entries q)" by simp
    with inv obtain r where r: "req (store q ! ?a) = Some r" by auto
    from hp r have pop: "queue_pop q = (Some r, ?q')"
      by (subst queue_pop.simps) simp
    then have dr: "drain q = r # drain ?q'"
      by (subst drain.simps) simp
    from ms have ms': "mset (?a # h') = mset (entries q)" by simp
    from mset_eq_setD [OF ms'] have set_eq: "set (entries q) = insert ?a (set h')" by simp
    from mset_eq_imp_distinct_iff [OF ms'] inv have "distinct (?a # h')" by simp
    then have dist: "distinct h'" "?a \<notin> set h'" by simp_all
    from set_eq have sub: "set h' \<subseteq> set (entries q)" by auto
    have live': "live_heap ?q'"
      unfolding live_heap_def using heap' dist(1) inv sub
      by (auto intro: inj_on_subset)
    from mset_eq_length [OF ms'] have "length h' < length (entries q)" by simp
    then have "length (entries ?q') < length (entries q)" by simp
    from less.hyps [OF this live'] obtain as where
      as: "drain ?q' = map (\<lambda>a. the (req (store q ! a))) as" "mset as = mset h'"
        "sorted_wrt (\<lambda>a b. ?key a < ?key b) as"
      by auto
    have min: "?key ?a < ?key b" if "b \<in> set as" for b
    proof -
      from that mset_eq_setD [OF as(2)] have bh: "b \<in> set h'" by simp
      with sub have b_in: "b \<in> set (entries q)" by auto
      then obtain i where "i < length (entries q)" "entries q ! i = b"
        by (auto simp: in_set_conv_nth)
      with heap_root_min [OF heap this(1)] False have "?key ?a \<le> ?key b"
        by (simp add: hd_conv_nth)
      moreover from bh dist(2) have "b \<noteq> ?a" by auto
      with inv a_in b_in have "?key ?a \<noteq> ?key b"
        by (auto dest: inj_onD)
      ultimately show ?thesis by simp
    qed
    have "drain q = map (\<lambda>a. the (req (store q ! a))) (?a # as)"
      using dr as(1) r by simp
    moreover have "mset (?a # as) = mset (entries q)"
      using as(2) ms by simp
    moreover have "sorted_wrt (\<lambda>a b. ?key a < ?key b) (?a # as)"
      using as(3) min by simp
    ultimately show ?thesis by blast
  qed
qed

lemma push_all_snoc: "push_all q (rs @ [r]) = snd (queue_push (push_all q rs) r)"
  by (simp add: push_all_def)

lemma fresh_store_snoc:
  "fresh_store (rs @ [r]) =
     fresh_store rs @ [\<lparr>neg_priority = - priority r, count = int (length rs), req = Some r\<rparr>]"
  by (simp add: fresh_store_def nth_append)

lemma push_all_fresh:
  "store (push_all (init_queue True) rs) = fresh_store rs
   \<and> counter (push_all (init_queue True) rs) = int (length rs)
   \<and> step (push_all (init_queue True) rs) = 1
   \<and> mset (entries (push_all (init_queue True) rs)) = mset [0..<length rs]
   \<and> is_heap (entry_key (fresh_store rs)) (entries (push_all (init_queue True) rs))"
proof (induction rs rule: rev_induct)
  case Nil
  show ?case
    by (simp add: push_all_def init_queue_def fresh_store_def is_heap_def)
next
  case (snoc r rs)
  let ?q = "push_all (init_queue True) rs"
  let ?st = "fresh_store (rs @ [r])"
  from snoc have st: "store ?q = fresh_store rs" and cn: "counter ?q = int (length rs)"
    and sp: "step ?q = 1" and ms: "mset (entries ?q) = mset [0..<length rs]"
    and heap: "is_heap (entry_key (fresh_store rs)) (entries ?q)"
    by simp_all
  have len: "length (fresh_store rs) = length rs"
    by (simp add: fresh_store_def)
  from mset_eq_setD [OF ms] have "set (entries ?q) = {0..<length rs}" by simp
  then have "\<forall>a\<in>set (entries ?q). entry_key (fresh_store rs) a = entry_key ?st a"
    by (simp add: entry_key_def fresh_store_snoc nth_append len)
  with heap have heap1: "is_heap (entry_key ?st) (entries ?q)"
    using is_heap_cong by blast
  have q': "push_all (init_queue True) (rs @ [r]) =
      ?q\<lparr>entries := heappush (addr_lt ?st) (entries ?q) (length rs), store := ?st,
         counter := int (length rs) + 1\<rparr>"
    by (simp add: push_all_snoc queue_push_def Let_def st cn sp len fresh_store_snoc)
  from heappush_heap [OF heap1, of "length rs"] ms show ?case
    by (simp add: q' addr_lt_key sp)
qed

lemma fresh_store_nth:
  "a < length rs \<Longrightarrow>
   fresh_store rs ! a = \<lparr>neg_priority = - priority (rs ! a), count = int a, req = Some (rs ! a)\<rparr>"
  by (simp add: fresh_store_def)

lemma drain_fresh:
  "\<exists>as. drain (push_all (init_queue True) rs) = map (\<lambda>a. rs ! a) as
       \<and> mset as = mset [0..<length rs]
       \<and> sorted_wrt (\<lambda>a b. (- priority (rs ! a), a) < (- priority (rs ! b), b)) as"
proof -
  let ?q = "push_all (init_queue True) rs"
  note f = push_all_fresh [of rs]
  from f have ms: "mset (entries ?q) = mset [0..<length rs]" by simp
  from mset_eq_setD [OF ms] have set_e: "set (entries ?q) = {0..<length rs}" by simp
  have key: "entry_key (store ?q) a = (- priority (rs ! a), int a)" if "a < length rs" for a
    using that f by (simp add: entry_key_def fresh_store_nth)
  have "live_heap ?q"
    unfolding live_heap_def
  proof (intro conjI)
    from f show "is_heap (entry_key (store ?q)) (entries ?q)" by simp
    from mset_eq_imp_distinct_iff [OF ms] show "distinct (entries ?q)" by simp
    from f set_e show "\<forall>a\<in>set (entries ?q). req (store ?q ! a) \<noteq> None"
      by (simp add: fresh_store_nth)
    from set_e key show "inj_on (entry_key (store ?q)) (set (entries ?q))"
      by (auto simp: inj_on_def)
  qed
  from drain_sorted [OF this] obtain as where
    as: "drain ?q = map (\<lambda>a. the (req (store ?q ! a))) as" "mset as = mset (entries ?q)"
      "sorted_wrt (\<lambda>a b. entry_key (store ?q) a < entry_key (store ?q) b) as"
    by auto
  from mset_eq_setD [OF as(2)] set_e have set_as: "set as = {0..<length rs}" by simp
  then have "map (\<lambda>a. the (req (store ?q ! a))) as = map (\<lambda>a. rs ! a) as"
    using f by (auto simp: fresh_store_nth)
  moreover have "sorted_wrt (\<lambda>a b. (- priority (rs ! a), a) < (- priority (rs ! b), b)) as"
  proof (rule sorted_wrt_mono_rel [OF _ as(3)])
    fix a b assume "a \<in> set as" "b \<in> set as"
      and "entry_key (store ?q) a < entry_key (store ?q) b"
    with set_as show "(- priority (rs ! a), a) < (- priority (rs ! b), b)"
      by (simp add: key)
  qed
  moreover from as(2) ms have "mset as = mset [0..<length rs]" by simp
  ultimately show ?thesis using as(1) by (intro exI [of _ as]) simp
qed

lemma drain_fresh_filter:
  "filter (\<lambda>r. priority r = p) (drain (push_all (init_queue True) rs))
   = filter (\<lambda>r. priority r = p) rs"
proof -
  from drain_fresh [of rs] obtain as where
    as: "drain (push_all (init_queue True) rs) = map (\<lambda>a. rs ! a) as"
      "mset as = mset [0..<length rs]"
      "sorted_wrt (\<lambda>a b. (- priority (rs ! a), a) < (- priority (rs ! b), b)) as"
    by auto
  let ?P = "\<lambda>a. priority (rs ! a) = p"
  let ?bs = "filter ?P as"
  from mset_eq_setD [OF as(2)] have set_as: "set as = {0..<length rs}" by simp
  from as(3) have "sorted_wrt (\<lambda>a b. (- priority (rs ! a), a) < (- priority (rs ! b), b)) ?bs"
    by (rule sorted_wrt_filter)
  then have "sorted_wrt (<) ?bs"
    by (rule sorted_wrt_mono_rel [rotated]) auto
  then have "sorted ?bs" "distinct ?bs"
    by (simp_all add: strict_sorted_iff)
  moreover have "sorted (filter ?P [0..<length rs])" "distinct (filter ?P [0..<length rs])"
    by (simp_all add: sorted_wrt_filter)
  moreover from set_as have "set ?bs = set (filter ?P [0..<length rs])" by auto
  ultimately have bs: "?bs = filter ?P [0..<length rs]"
    by (intro sorted_distinct_set_unique)
  have "filter (\<lambda>r. priority r = p) (map (\<lambda>a. rs ! a) as) = map (\<lambda>a. rs ! a) ?bs"
    by (simp add: filter_map comp_def)
  also have "\<dots> = filter (\<lambda>r. priority r = p) (map (\<lambda>a. rs ! a) [0..<length rs])"
    by (simp add: bs filter_map comp_def)
  also have "\<dots> = filter (\<lambda>r. priority r = p) rs"
    by (simp add: map_nth)
  finally show ?thesis using as(1) by simp
qed

lemma drain_fresh_mset: "mset (drain (push_all (init_queue True) rs)) = mset rs"
proof -
  from drain_fresh [of rs] obtain as where
    as: "drain (push_all (init_queue True) rs) = map (\<lambda>a. rs ! a) as"
      "mset as = mset [0..<length rs]"
    by auto
  have "mset (map (\<lambda>a. rs ! a) as) = image_mset (\<lambda>a. rs ! a) (mset as)" by simp
  also have "\<dots> = mset (map (\<lambda>a. rs ! a) [0..<length rs])" by (simp add: as(2))
  also have "\<dots> = mset rs" by (simp add: map_nth)
  finally show ?thesis using as(1) by simp
qed

lemma drain_fresh_sorted:
  "sorted (map (\<lambda>r. - priority r) (drain (push_all (init_queue True) rs)))"
proof -
  from drain_fresh [of rs] obtain as where
    as: "drain (push_all (init_queue True) rs) = map (\<lambda>a. rs ! a) as"
      "sorted_wrt (\<lambda>a b. (- priority (rs ! a), a) < (- priority (rs ! b), b)) as"
    by auto
  from as(2) have "sorted_wrt (\<lambda>a b. - priority (rs ! a) \<le> - priority (rs ! b)) as"
    by (rule sorted_wrt_mono_rel [rotated]) auto
  then show ?thesis
    by (simp add: as(1) sorted_wrt_map comp_def)
qed

text \<open>
  Claim C1: \<open>max_priority()\<close> returns the priority of the top live request when there is
  one, and \<open>EMPTY_PRIORITY\<close> when no live entry exists, also when the entries left are
  removed ones.

  The code looks at \<open>entries[0]\<close> whatever it holds. A request of priority 5 is pushed
  into a fresh queue and its entry is removed with \<open>remove_entry\<close>: the queue has one
  entry, no request, and \<open>max_priority()\<close> is \<open>5 + REMOVED_PRIORITY\<close>, not
  \<open>EMPTY_PRIORITY\<close>. And when requests of priorities 1 and 2 are pushed and the entry of
  the second, the root, is removed, the request of priority 1 is live and
  \<open>max_priority()\<close> is \<open>2 + REMOVED_PRIORITY\<close>.
\<close>

theorem max_priority_of_removed_root:
  "(let (e, q1) = queue_push (init_queue True) \<lparr>url = ''a'', priority = 5, meta = []\<rparr>;
        (r, q2) = remove_entry q1 e
    in (r, queue_len q2, iter_requests q2, max_priority q2, EMPTY_PRIORITY))
   = (Some \<lparr>url = ''a'', priority = 5, meta = []\<rparr>, 1, [], 100000005, - 100000000)
   \<and> (let (ea, q1) = queue_push (init_queue True) \<lparr>url = ''a'', priority = 1, meta = []\<rparr>;
            (eb, q2) = queue_push q1 \<lparr>url = ''b'', priority = 2, meta = []\<rparr>;
            (r, q3) = remove_entry q2 eb
        in (entries q3, iter_requests q3, max_priority q3))
       = ([1, 0], [\<lparr>url = ''a'', priority = 1, meta = []\<rparr>], 100000002)"
  by (simp add: heap_eval queue_len_def)

text \<open>
  Claim C3: after any sequence of \<open>push\<close>, \<open>pop\<close>, \<open>remove_entry\<close>, \<open>change_priority\<close>
  with \<open>heapify\<close>, and \<open>update_all_priorities\<close>, the priorities of the requests that
  repeated \<open>pop\<close> returns never increase.

  \<open>remove_entry\<close> overwrites the first component of an entry where it stands in the
  heap, and a later \<open>heappush\<close> stops sifting at it. Requests \<open>a\<close>, \<open>b\<close>, \<open>c\<close> of
  priorities 1, 2, 3 are pushed, the entry of \<open>a\<close> is removed, and \<open>d\<close> of priority 100 is
  pushed: the pops return \<open>c\<close>, \<open>d\<close>, \<open>b\<close>, of priorities 3, 100, 2.
\<close>

theorem pop_order_after_remove_entry:
  "(let (ea, q1) = queue_push (init_queue True) \<lparr>url = ''a'', priority = 1, meta = []\<rparr>;
        (eb, q2) = queue_push q1 \<lparr>url = ''b'', priority = 2, meta = []\<rparr>;
        (ec, q3) = queue_push q2 \<lparr>url = ''c'', priority = 3, meta = []\<rparr>;
        (ra, q4) = remove_entry q3 ea;
        (ed, q5) = queue_push q4 \<lparr>url = ''d'', priority = 100, meta = []\<rparr>
    in map (\<lambda>r. (url r, priority r)) (drain q5))
   = [(''c'', 3), (''d'', 100), (''b'', 2)]"
  by (simp add: heap_eval)

text \<open>
  Claim C7 (scenario C): requests \<open>a\<close>, \<open>b\<close>, \<open>c\<close> of priorities 1, 2, 3 are pushed into a
  fresh queue; \<open>update_all_priorities\<close> with a function that gives \<open>a\<close>, \<open>b\<close>, \<open>c\<close> the
  priorities 10, 0, 5 makes the pops return \<open>a\<close>, \<open>c\<close>, \<open>b\<close>, each with its new priority
  written to the request.
\<close>

theorem scenario_reprioritize_all:
  assumes "priority a = 1" "priority b = 2" "priority c = 3"
      and "g a = 10" "g b = 0" "g c = 5"
  shows "drain (update_all_priorities (push_all (init_queue True) [a, b, c]) (map g))
         = [a\<lparr>priority := 10\<rparr>, c\<lparr>priority := 5\<rparr>, b\<lparr>priority := 0\<rparr>]"
  using assms by (simp add: heap_eval)

theorem scenario_reprioritize_all_witness:
  "drain (update_all_priorities
      (push_all (init_queue True)
         [\<lparr>url = ''a'', priority = 1, meta = []\<rparr>, \<lparr>url = ''b'', priority = 2, meta = []\<rparr>,
          \<lparr>url = ''c'', priority = 3, meta = []\<rparr>])
      (map (\<lambda>r. if url r = ''a'' then 10 else if url r = ''b'' then 0 else 5)))
   = [\<lparr>url = ''a'', priority = 10, meta = []\<rparr>, \<lparr>url = ''c'', priority = 5, meta = []\<rparr>,
      \<lparr>url = ''b'', priority = 0, meta = []\<rparr>]"
  using scenario_reprioritize_all [of "\<lparr>url = ''a'', priority = 1, meta = []\<rparr>"
      "\<lparr>url = ''b'', priority = 2, meta = []\<rparr>" "\<lparr>url = ''c'', priority = 3, meta = []\<rparr>"
      "\<lambda>r. if url r = ''a'' then 10 else if url r = ''b'' then 0 else 5"]
  by simp

text \<open>
  Claim C8 (scenario B): in every queue built with the default \<open>fifo=True\<close>, requests
  pushed with equal priority are popped in the order they were pushed; three requests
  \<open>a\<close>, \<open>b\<close>, \<open>c\<close> of one priority come out as \<open>a\<close>, \<open>b\<close>, \<open>c\<close>.

  The code loses this order once an entry has been removed. Requests \<open>a\<close>, \<open>b\<close>, \<open>c\<close>,
  \<open>d\<close> of priorities 1, 2, 3, 0 are pushed and the entry of \<open>a\<close> is removed with
  \<open>remove_entry\<close>; then \<open>x\<close> and \<open>y\<close>, both of priority 100, are pushed in this order.
  \<open>x\<close> stays below the removed entry and \<open>y\<close> rises to the root: \<open>y\<close> is popped before \<open>x\<close>.
\<close>

theorem fifo_order_after_remove_entry:
  "(let (ea, q1) = queue_push (init_queue True) \<lparr>url = ''a'', priority = 1, meta = []\<rparr>;
        (eb, q2) = queue_push q1 \<lparr>url = ''b'', priority = 2, meta = []\<rparr>;
        (ec, q3) = queue_push q2 \<lparr>url = ''c'', priority = 3, meta = []\<rparr>;
        (ed, q4) = queue_push q3 \<lparr>url = ''d'', priority = 0, meta = []\<rparr>;
        (ra, q5) = remove_entry q4 ea;
        (ex, q6) = queue_push q5 \<lparr>url = ''x'', priority = 100, meta = []\<rparr>;
        (ey, q7) = queue_push q6 \<lparr>url = ''y'', priority = 100, meta = []\<rparr>
    in map (\<lambda>r. (url r, priority r)) (drain q7))
   = [(''y'', 100), (''x'', 100), (''c'', 3), (''b'', 2), (''d'', 0)]"
  by (simp add: heap_eval)

text \<open>
  In a fresh FIFO queue that requests are pushed into and that is then popped until it is
  empty, the order holds: the entries are counted in steps of 1, from 0; the requests of
  any one priority are popped in the order they were pushed; so requests that all have the
  same priority, like the three of scenario B, are popped in the order of the pushes.
\<close>

lemma fifo_order_fresh_queue:
  "step (init_queue True) = 1
   \<and> map count (store (push_all (init_queue True) rs)) = map int [0..<length rs]
   \<and> filter (\<lambda>r. priority r = p) (drain (push_all (init_queue True) rs))
       = filter (\<lambda>r. priority r = p) rs
   \<and> ((\<forall>r\<in>set rs. priority r = p) \<longrightarrow> drain (push_all (init_queue True) rs) = rs)"
proof (intro conjI impI)
  show "step (init_queue True) = 1" by (simp add: init_queue_def)
  from push_all_fresh [of rs]
  show "map count (store (push_all (init_queue True) rs)) = map int [0..<length rs]"
    by (simp add: fresh_store_def comp_def)
  show f: "filter (\<lambda>r. priority r = p) (drain (push_all (init_queue True) rs))
       = filter (\<lambda>r. priority r = p) rs"
    by (rule drain_fresh_filter)
  assume all: "\<forall>r\<in>set rs. priority r = p"
  from mset_eq_setD [OF drain_fresh_mset [of rs]]
  have "set (drain (push_all (init_queue True) rs)) = set rs" .
  with all have "filter (\<lambda>r. priority r = p) (drain (push_all (init_queue True) rs))
      = drain (push_all (init_queue True) rs)" "filter (\<lambda>r. priority r = p) rs = rs"
    by simp_all
  with f show "drain (push_all (init_queue True) rs) = rs" by simp
qed

lemma scenario_B:
  "drain (push_all (init_queue True)
      [\<lparr>url = ''a'', priority = 7, meta = []\<rparr>, \<lparr>url = ''b'', priority = 7, meta = []\<rparr>,
       \<lparr>url = ''c'', priority = 7, meta = []\<rparr>])
   = [\<lparr>url = ''a'', priority = 7, meta = []\<rparr>, \<lparr>url = ''b'', priority = 7, meta = []\<rparr>,
      \<lparr>url = ''c'', priority = 7, meta = []\<rparr>]"
  using fifo_order_fresh_queue [of "[\<lparr>url = ''a'', priority = 7, meta = []\<rparr>,
      \<lparr>url = ''b'', priority = 7, meta = []\<rparr>, \<lparr>url = ''c'', priority = 7, meta = []\<rparr>]" 7]
  by simp

section \<open>Properties of BalancedPriorityQueue\<close>

text \<open>
  Claim C4: \<open>push\<close> of a request whose \<open>meta['scheduler_slot']\<close> is a slot of
  \<open>closed_slots\<close> raises \<open>QueueClosed\<close> and leaves the scheduler as it was: its queues with
  all they hold, its closed slots and its buffer.
\<close>

theorem push_closed_slot:
  assumes "d \<in> closed_slots s" and "map_of (meta request) ''scheduler_slot'' = Some d"
  shows "push s request = (Inl QueueClosed, s)"
  using assms by (simp add: push_def meta_get_def)

theorem push_closed_slot_witness:
  "(let s = snd (close_queue (example_scheduler 0) (PyStr ''d1''));
        r = \<lparr>url = ''http://d1/'', priority = 0, meta = [(''scheduler_slot'', PyStr ''d1'')]\<rparr>
    in PyStr ''d1'' \<in> closed_slots s \<and> push s r = (Inl QueueClosed, s))"
  using push_closed_slot [of "PyStr ''d1''" "snd (close_queue (example_scheduler 0) (PyStr ''d1''))"
      "\<lparr>url = ''http://d1/'', priority = 0, meta = [(''scheduler_slot'', PyStr ''d1'')]\<rparr>"]
  by (simp add: close_queue_def example_scheduler_def)


text \<open>
  What \<open>close_queue\<close> does in every state: it adds \<open>d\<close> to \<open>closed_slots\<close>, removes the
  queue of \<open>d\<close> and leaves the other queues as they are, and returns the number of entries
  of that queue, \<open>len(queue.entries)\<close>, or 0 when \<open>d\<close> has no queue; a second call
  returns 0. In scenario E the first \<open>close_queue('d1')\<close> returns 5, the scheduler then has
  length 3, the second call returns 0 and a push for \<open>d1\<close> raises \<open>QueueClosed\<close>.
\<close>

lemma close_queue_result:
  "closed_slots (snd (close_queue s d)) = insert d (closed_slots s)
   \<and> queues (snd (close_queue s d)) = AList.delete d (queues s)
   \<and> map_of (queues (snd (close_queue s d))) d = None
   \<and> fst (close_queue s d) = (case map_of (queues s) d of None \<Rightarrow> 0 | Some q \<Rightarrow> length (entries q))
   \<and> fst (close_queue (snd (close_queue s d)) d) = 0"
  by (simp add: close_queue_def queue_len_def delete_conv split: option.splits)

lemma scenario_E_close_queue:
  "(let s' = snd (close_queue scenario_E (PyStr ''d1''))
    in map (\<lambda>(slot, q). (slot, length (entries q))) (queues scenario_E)
         = [(PyStr ''d1'', 5), (PyStr ''d2'', 3)]
     \<and> fst (close_queue scenario_E (PyStr ''d1'')) = 5
     \<and> closed_slots s' = {PyStr ''d1''}
     \<and> map (\<lambda>(slot, q). (slot, length (entries q))) (queues s') = [(PyStr ''d2'', 3)]
     \<and> scheduler_len s' = 3
     \<and> fst (close_queue s' (PyStr ''d1'')) = 0
     \<and> fst (push s' (slot_request ''d1'' ''i'' 9)) = Inl QueueClosed)"
proof -
  define s' where "s' = snd (close_queue scenario_E (PyStr ''d1''))"
  have qs: "map (\<lambda>(slot, q). (slot, entries q)) (queues scenario_E)
      = [(PyStr ''d1'', [4, 3, 1, 0, 2]), (PyStr ''d2'', [2, 0, 1])]"
    by code_simp
  have cs: "closed_slots scenario_E = {}"
    by code_simp
  have b: "buffer scenario_E = []"
    by code_simp
  from qs obtain q1 q2 where q: "queues scenario_E = [(PyStr ''d1'', q1), (PyStr ''d2'', q2)]"
    "entries q1 = [4, 3, 1, 0, 2]" "entries q2 = [2, 0, 1]"
    by (auto simp: map_eq_Cons_conv)
  note t = close_queue_result [of scenario_E "PyStr ''d1''", folded s'_def]
  from t q have n: "fst (close_queue scenario_E (PyStr ''d1'')) = 5" by simp
  from t cs have c: "closed_slots s' = {PyStr ''d1''}" by simp
  from t q have qs': "queues s' = [(PyStr ''d2'', q2)]" by simp
  from t have z: "fst (close_queue s' (PyStr ''d1'')) = 0" by simp
  have b': "buffer s' = []"
    using b by (simp add: s'_def close_queue_def)
  from qs' b' q have l: "scheduler_len s' = 3"
    by (simp add: scheduler_len_def queue_len_def)
  from c have p: "fst (push s' (slot_request ''d1'' ''i'' 9)) = Inl QueueClosed"
    by (simp add: push_def meta_get_def slot_request_def)
  from q n c qs' l z p show ?thesis
    unfolding s'_def [symmetric] Let_def by simp
qed

lemma meta_set_flag: "meta_get (meta_set r k v) k = v"
  by (simp add: meta_get_def meta_set_def update_conv')

lemma choose_queue_eps_one:
  "eps s = 1 \<Longrightarrow> coin d < 1 \<Longrightarrow> fst (choose_queue s all_slots d)"
  by (simp add: choose_queue_def)

lemma pop_requests_flags:
  "pop_requests s xs = Inr (requests, s') \<Longrightarrow> \<forall>x\<in>set xs. fst (fst x) \<Longrightarrow>
   \<forall>r\<in>set requests. from_random_policy r"
proof (induction xs arbitrary: s requests s')
  case Nil
  then show ?case by simp
next
  case (Cons x xs)
  obtain random_policy slot d where x: "x = ((random_policy, slot), d)"
    by (metis prod.collapse)
  from Cons.prems(2) x have rp: "random_policy" by simp
  from Cons.prems(1) x obtain queue where q: "get_queue s slot = Inr queue"
    by (auto split: sum.splits)
  obtain request queue' where p: "pop_random queue 10 (attempts d) = (request, queue')"
    by (cases "pop_random queue 10 (attempts d)")
  from Cons.prems(1) x q p rp obtain rest s1 where
    r: "pop_requests (s\<lparr>queues := AList.update slot queue' (queues s)\<rparr>) xs = Inr (rest, s1)"
    and res: "requests = (case request of None \<Rightarrow> rest
                | Some r \<Rightarrow> meta_set r ''from_random_policy'' (PyBool True) # rest)"
    by (auto split: sum.splits option.splits)
  from Cons.IH [OF r] Cons.prems(2) have "\<forall>r\<in>set rest. from_random_policy r" by simp
  with res show ?case
    by (auto simp: from_random_policy_def meta_set_flag split: option.splits)
qed

lemma pop_requests_fields:
  "pop_requests s xs = Inr (requests, s') \<Longrightarrow> eps s' = eps s \<and> buffer s' = buffer s"
proof (induction xs arbitrary: s requests s')
  case Nil
  then show ?case by simp
next
  case (Cons x xs)
  obtain random_policy slot d where x: "x = ((random_policy, slot), d)"
    by (metis prod.collapse)
  from Cons.prems x obtain queue' rest s1 where
    r: "pop_requests (s\<lparr>queues := AList.update slot queue' (queues s)\<rparr>) xs = Inr (rest, s1)"
    and s1: "s' = s1"
    by (auto split: sum.splits option.splits prod.splits)
  from Cons.IH [OF r] s1 show ?case by simp
qed

lemma pop_many_flags:
  assumes "eps s = 1" and "\<forall>idx. 0 \<le> coin (draws idx) \<and> coin (draws idx) < 1"
      and "pop_many s n draws = Inr (requests, s')"
  shows "\<forall>r\<in>set requests. from_random_policy r"
proof (cases "queues s = []")
  case True
  with assms(3) show ?thesis by (simp add: pop_many_def)
next
  case False
  with assms(3) have "pop_requests s
      (map (\<lambda>idx. (choose_queue s (map fst (queues s)) (draws idx), draws idx)) [0..<n])
      = Inr (requests, s')"
    by (simp add: pop_many_def)
  then show ?thesis
    by (rule pop_requests_flags) (use assms(1,2) in \<open>auto intro: choose_queue_eps_one\<close>)
qed

lemma pop_many_fields:
  "pop_many s n draws = Inr (requests, s') \<Longrightarrow> eps s' = eps s \<and> buffer s' = buffer s"
  by (auto simp: pop_many_def Let_def split: if_splits dest: pop_requests_fields)

lemma pop_flags:
  assumes "eps s = 1" and "\<forall>idx. 0 \<le> coin (draws idx) \<and> coin (draws idx) < 1"
      and "\<forall>r\<in>set (buffer s). from_random_policy r"
      and "pop s draws = Inr (res, s')"
  shows "eps s' = eps s \<and> (\<forall>r\<in>set (buffer s'). from_random_policy r)
         \<and> (\<forall>r. res = Some r \<longrightarrow> from_random_policy r)"
proof (cases "buffer s = []")
  case True
  with assms(4) obtain requests s1 where
    pm: "pop_many s (batch_size s) draws = Inr (requests, s1)"
    by (auto simp: pop_def split: sum.splits)
  from pop_many_flags [OF assms(1,2) pm] have fl: "\<forall>r\<in>set requests. from_random_policy r" .
  from pop_many_fields [OF pm] True have f: "eps s1 = eps s" "buffer s1 = []" by simp_all
  from assms(4) True pm f have
    "res = (if requests \<noteq> [] then Some (last requests) else None)"
    "buffer s' = butlast requests" "eps s' = eps s"
    by (auto simp: pop_def split: if_splits)
  with fl show ?thesis
    by (auto dest: in_set_butlastD)
next
  case False
  with assms(4) have "res = Some (last (buffer s))" "buffer s' = butlast (buffer s)" "eps s' = eps s"
    by (auto simp: pop_def)
  with assms(3) False show ?thesis
    by (auto dest: in_set_butlastD)
qed

lemma push_fields: "push s request = (res, s') \<Longrightarrow> eps s' = eps s \<and> buffer s' = buffer s"
  by (auto simp: push_def Let_def split: if_splits sum.splits)

lemma close_queue_fields: "close_queue s slot = (n, s') \<Longrightarrow> eps s' = eps s \<and> buffer s' = buffer s"
  by (auto simp: close_queue_def Let_def)

lemma reachable_buffer:
  "reachable s \<Longrightarrow> eps s = 1 \<Longrightarrow> \<forall>r\<in>set (buffer s). from_random_policy r"
proof (induction rule: reachable.induct)
  case (new factory e temperature bs s)
  then show ?case by (auto simp: new_scheduler_def split: if_splits)
next
  case (push s request res s')
  then show ?case by (auto dest: push_fields)
next
  case (pop s draws res s')
  from pop_many_fields pop.prems pop.hyps(3) have e: "eps s = 1"
    by (auto simp: pop_def split: if_splits sum.splits prod.splits dest: pop_many_fields)
  from pop_flags [OF e pop.hyps(2) pop.IH [OF e] pop.hyps(3)] show ?case by simp
next
  case (close_queue s slot n s')
  then show ?case by (auto dest: close_queue_fields)
next
  case (queues s qs)
  then show ?case by simp
qed

text \<open>
  Claim C9: in a scheduler with \<open>eps = 1\<close>, whatever the queues hold and whatever the
  random draws are, every request that \<open>_pop_many\<close> produces and every request that
  \<open>pop\<close> returns has \<open>meta['from_random_policy'] = True\<close>.
\<close>

theorem eps_one_from_random_policy:
  assumes "eps s = 1" and "\<forall>idx. 0 \<le> coin (draws idx) \<and> coin (draws idx) < 1"
  shows "(pop_many s n draws = Inr (requests, s1) \<longrightarrow> (\<forall>r\<in>set requests. from_random_policy r))
       \<and> (reachable s \<longrightarrow> pop s draws = Inr (Some r, s2) \<longrightarrow> from_random_policy r)"
proof (intro conjI impI)
  assume "pop_many s n draws = Inr (requests, s1)"
  from pop_many_flags [OF assms this] show "\<forall>r\<in>set requests. from_random_policy r" .
next
  assume r: "reachable s" and p: "pop s draws = Inr (Some r, s2)"
  from pop_flags [OF assms reachable_buffer [OF r assms(1)] p] show "from_random_policy r"
    by simp
qed

theorem eps_one_from_random_policy_witness:
  "(let r0 = \<lparr>url = ''http://d1/a'', priority = 3, meta = [(''scheduler_slot'', PyStr ''d1'')]\<rparr>;
        s = snd (push (example_scheduler 1) r0);
        d = (\<lambda>idx. \<lparr>chosen = 0, coin = 1 / 2, random_slot = 0, attempts = [0]\<rparr>);
        rf = meta_set r0 ''from_random_policy'' (PyBool True);
        s' = s\<lparr>queues := [(PyStr ''d1'',
                \<lparr>entries = [0],
                 store = [\<lparr>neg_priority = - 100000003, count = 0, req = None\<rparr>],
                 counter = 1, step = 1\<rparr>)]\<rparr>
    in eps s = 1 \<and> (\<forall>idx. 0 \<le> coin (d idx) \<and> coin (d idx) < 1) \<and> reachable s
       \<and> pop_many s 1 d = Inr ([rf], s') \<and> pop s d = Inr (Some rf, s')
       \<and> from_random_policy rf)"
proof -
  define r0 where "r0 = \<lparr>url = ''http://d1/a'', priority = 3, meta = [(''scheduler_slot'', PyStr ''d1'')]\<rparr>"
  define s where "s = snd (push (example_scheduler 1) r0)"
  define d where "d = (\<lambda>idx::nat. \<lparr>chosen = 0, coin = 1 / 2, random_slot = 0, attempts = [0]\<rparr>)"
  define rf where "rf = meta_set r0 ''from_random_policy'' (PyBool True)"
  define s' where "s' = s\<lparr>queues := [(PyStr ''d1'',
                \<lparr>entries = [0],
                 store = [\<lparr>neg_priority = - 100000003, count = 0, req = None\<rparr>],
                 counter = 1, step = 1\<rparr>)]\<rparr>"
  have s_eq: "s = (example_scheduler 1)\<lparr>queues := [(PyStr ''d1'',
                \<lparr>entries = [0],
                 store = [\<lparr>neg_priority = - 3, count = 0, req = Some r0\<rparr>],
                 counter = 1, step = 1\<rparr>)]\<rparr>"
    by (simp add: s_def r0_def push_def meta_get_def get_queue_def example_scheduler_def heap_eval)
  have e: "eps s = 1"
    by (simp add: s_eq example_scheduler_def)
  have c: "\<forall>idx. 0 \<le> coin (d idx) \<and> coin (d idx) < 1"
    by (simp add: d_def)
  have re: "reachable s"
    unfolding s_def
    by (rule reachable.push [OF reachable.new [OF example_scheduler_new [of 1]]])
       (rule surjective_pairing)
  have pm: "pop_many s 1 d = Inr ([rf], s')"
    by (simp add: s'_def s_eq rf_def d_def pop_many_def choose_queue_def example_scheduler_def
        get_queue_def pop_random_def heap_eval)
  have bs: "batch_size s = 1" and b: "buffer s = []" "buffer s' = []"
    by (simp_all add: batch_size_def s'_def s_eq example_scheduler_def)
  from pm have pm': "pop_many s (Suc 0) d = Inr ([rf], s')" by simp
  have p: "pop s d = Inr (Some rf, s')"
    by (simp add: pop_def bs b pm')
  from eps_one_from_random_policy [OF e c, of 1 "[rf]" s' rf s'] re p
  have "from_random_policy rf" by blast
  with e c re pm p show ?thesis
    unfolding r0_def [symmetric] s_def [symmetric] d_def [symmetric] rf_def [symmetric]
      s'_def [symmetric] Let_def
    by blast
qed

lemma sum_list_update_new:
  "map_of al k = None \<Longrightarrow>
   sum_list (map f (AList.update k v al)) = sum_list (map f al) + (f (k, v) :: nat)"
  by (induction al) (auto split: if_splits)

lemma sum_list_update_old:
  "map_of al k = Some q \<Longrightarrow>
   sum_list (map f (AList.update k v al)) + f (k, q) = sum_list (map f al) + (f (k, v) :: nat)"
  by (induction al) (auto split: if_splits)

lemma queue_push_len: "queue_len (snd (queue_push q r)) = Suc (queue_len q)"
  by (simp add: queue_push_def queue_len_def Let_def heappush_length)

text \<open>
  Claim C10: \<open>push\<close> of a request whose \<open>meta\<close> has no key \<open>scheduler_slot\<close> does not
  fail; the slot is \<open>None\<close>, one queue is created for it on the first such push, all such
  requests go to this queue, and it counts in \<open>len\<close> and among the slots sampled from.

  This holds as long as \<open>None\<close> is not in \<open>closed_slots\<close>. After \<open>close_queue(None)\<close> the
  guard of \<open>push\<close> applies to the slot \<open>None\<close> as to any other: the push raises
  \<open>QueueClosed\<close> and leaves the scheduler as it was. Otherwise the queue of slot \<open>None\<close>
  (the one the factory makes, if there is none yet) gets the request, the keys of \<open>queues\<close>
  are the former ones and \<open>None\<close>, each once, and \<open>len\<close> grows by one (and by the length
  of what the factory made).
\<close>

theorem push_without_slot:
  assumes "map_of (meta request) ''scheduler_slot'' = None"
  shows "(PyNone \<in> closed_slots s \<longrightarrow> push s request = (Inl QueueClosed, s))
       \<and> (PyNone \<notin> closed_slots s \<longrightarrow>
           (let q0 = (case map_of (queues s) PyNone of
                        None \<Rightarrow> queue_factory s PyNone | Some q \<Rightarrow> q);
                s' = snd (push s request)
            in push s request =
                 (Inr (), s\<lparr>queues := AList.update PyNone (snd (queue_push q0 request)) (queues s)\<rparr>)
             \<and> get_queue s' PyNone = Inr (snd (queue_push q0 request))
             \<and> set (map fst (queues s')) = insert PyNone (set (map fst (queues s)))
             \<and> (distinct (map fst (queues s)) \<longrightarrow> distinct (map fst (queues s')))
             \<and> scheduler_len s' = scheduler_len s + 1 +
                 (case map_of (queues s) PyNone of
                    None \<Rightarrow> queue_len (queue_factory s PyNone) | Some q \<Rightarrow> 0)))"
proof (intro conjI impI)
  assume "PyNone \<in> closed_slots s"
  with assms show "push s request = (Inl QueueClosed, s)"
    by (simp add: push_def meta_get_def)
next
  assume open_slot: "PyNone \<notin> closed_slots s"
  define q0 where "q0 = (case map_of (queues s) PyNone of
                        None \<Rightarrow> queue_factory s PyNone | Some q \<Rightarrow> q)"
  define s' where "s' = snd (push s request)"
  have p: "push s request =
      (Inr (), s\<lparr>queues := AList.update PyNone (snd (queue_push q0 request)) (queues s)\<rparr>)"
    using assms open_slot
    by (auto simp: push_def meta_get_def get_queue_def q0_def update_conv' split: option.splits)
  then have s': "s' = s\<lparr>queues := AList.update PyNone (snd (queue_push q0 request)) (queues s)\<rparr>"
    by (simp add: s'_def)
  have g: "get_queue s' PyNone = Inr (snd (queue_push q0 request))"
    by (simp add: s' get_queue_def update_conv')
  have k: "set (map fst (queues s')) = insert PyNone (set (map fst (queues s)))"
    by (simp add: s' dom_update [simplified])
  have d: "distinct (map fst (queues s)) \<longrightarrow> distinct (map fst (queues s'))"
    by (simp add: s' distinct_update)
  have l: "scheduler_len s' = scheduler_len s + 1 +
                 (case map_of (queues s) PyNone of
                    None \<Rightarrow> queue_len (queue_factory s PyNone) | Some q \<Rightarrow> 0)"
  proof (cases "map_of (queues s) PyNone")
    case None
    then show ?thesis
      by (simp add: s' scheduler_len_def sum_list_update_new q0_def queue_push_len)
  next
    case (Some q)
    from sum_list_update_old [OF Some, of "\<lambda>(slot, q). queue_len q" "snd (queue_push q0 request)"]
    show ?thesis
      using Some by (simp add: s' scheduler_len_def q0_def queue_push_len)
  qed
  from p g k d l show "let q0 = (case map_of (queues s) PyNone of
                        None \<Rightarrow> queue_factory s PyNone | Some q \<Rightarrow> q);
                s' = snd (push s request)
            in push s request =
                 (Inr (), s\<lparr>queues := AList.update PyNone (snd (queue_push q0 request)) (queues s)\<rparr>)
             \<and> get_queue s' PyNone = Inr (snd (queue_push q0 request))
             \<and> set (map fst (queues s')) = insert PyNone (set (map fst (queues s)))
             \<and> (distinct (map fst (queues s)) \<longrightarrow> distinct (map fst (queues s')))
             \<and> scheduler_len s' = scheduler_len s + 1 +
                 (case map_of (queues s) PyNone of
                    None \<Rightarrow> queue_len (queue_factory s PyNone) | Some q \<Rightarrow> 0)"
    unfolding q0_def [symmetric] s'_def [symmetric] Let_def by blast
qed

theorem push_without_slot_witness:
  "(let r = \<lparr>url = ''http://example.com/'', priority = 0, meta = []\<rparr>;
        s = example_scheduler 0;
        s' = snd (push s r)
    in map_of (meta r) ''scheduler_slot'' = None \<and> PyNone \<notin> closed_slots s
       \<and> fst (push s r) = Inr () \<and> map fst (queues s') = [PyNone] \<and> scheduler_len s' = 1)"
proof -
  define r where "r = \<lparr>url = ''http://example.com/'', priority = 0, meta = []\<rparr>"
  define s where "s = example_scheduler 0"
  define s' where "s' = snd (push s r)"
  have h: "map_of (meta r) ''scheduler_slot'' = None" and c: "PyNone \<notin> closed_slots s"
    and q: "queues s = []" and f: "queue_factory s PyNone = init_queue True" and b: "buffer s = []"
    by (simp_all add: r_def s_def example_scheduler_def)
  note facts = mp [OF conjunct2 [OF push_without_slot [OF h, of s]] c,
      unfolded Let_def q map_of.simps option.case f]
  from facts have p: "push s r =
      (Inr (), s\<lparr>queues := AList.update PyNone (snd (queue_push (init_queue True) r)) []\<rparr>)"
    by (rule conjunct1)
  from facts have l: "scheduler_len s' = scheduler_len s + 1 + queue_len (init_queue True)"
    unfolding s'_def by blast
  from p have "fst (push s r) = Inr ()" "map fst (queues s') = [PyNone]"
    by (simp_all add: s'_def q)
  moreover from l have "scheduler_len s' = 1"
    by (simp add: scheduler_len_def q b queue_len_def init_queue_def)
  ultimately show ?thesis
    using h c unfolding r_def [symmetric] s_def [symmetric] s'_def [symmetric] Let_def by blast
qed

text \<open>
  Against C10 as stated: a scheduler on which \<open>close_queue(None)\<close> was called raises
  \<open>QueueClosed\<close> on the push of a request without \<open>scheduler_slot\<close>.
\<close>

theorem push_without_slot_closed:
  "fst (push (snd (close_queue (example_scheduler 0) PyNone))
          \<lparr>url = ''http://example.com/'', priority = 0, meta = []\<rparr>) = Inl QueueClosed"
  by (simp add: push_def meta_get_def close_queue_def example_scheduler_def)

section \<open>Properties of link extraction\<close>

lemma url_group_greedy:
  assumes "X \<noteq> []" "CHR 0x0A \<notin> set X" "is_quote q"
    and "\<forall>c\<in>set (takeWhile (\<lambda>c. c \<noteq> CHR 0x0A) T). \<not> is_quote c"
  shows "url_group (X @ q # T) = Some X"
proof -
  let ?T' = "takeWhile (\<lambda>c. c \<noteq> CHR 0x0A) T"
  let ?run = "X @ q # ?T'"
  from assms(3) have qn: "q \<noteq> CHR 0x0A" by (auto simp: is_quote_def)
  from assms(2) have "\<forall>c\<in>set X. c \<noteq> CHR 0x0A" by auto
  with qn have run: "takeWhile (\<lambda>c. c \<noteq> CHR 0x0A) (X @ q # T) = ?run"
    by (simp add: takeWhile_append2)
  have split: "[i..<k] = [i..<j] @ [j..<k]" if "i \<le> j" "j \<le> k" for i j k :: nat
    using that by (metis le_Suc_ex upt_add_eq_append)
  from assms(1) have "1 \<le> length X" by (cases X) simp_all
  moreover have lt: "length X < length ?run" by simp
  ultimately have "[1..<length ?run] = [1..<length X] @ [length X..<length ?run]"
    by (intro split) simp_all
  moreover from lt have "[length X..<length ?run] = length X # [Suc (length X)..<length ?run]"
    by (rule upt_conv_Cons)
  ultimately have upt: "[1..<length ?run] =
      [1..<length X] @ [length X] @ [Suc (length X)..<length ?run]"
    by simp
  have tail: "filter (\<lambda>k. is_quote (?run ! k)) [Suc (length X)..<length ?run] = []"
  proof -
    have "\<not> is_quote (?run ! k)" if "k \<in> set [Suc (length X)..<length ?run]" for k
    proof -
      from that have k: "Suc (length X) \<le> k" "k - Suc (length X) < length ?T'" by auto
      then have "?run ! k = ?T' ! (k - Suc (length X))"
        by (simp add: nth_append nth_Cons')
      with k(2) assms(4) show ?thesis
        by (metis nth_mem)
    qed
    then show ?thesis by (simp add: filter_empty_conv)
  qed
  have ks: "filter (\<lambda>k. is_quote (?run ! k)) [1..<length ?run]
      = filter (\<lambda>k. is_quote (?run ! k)) [1..<length X] @ [length X]"
  proof -
    have "filter (\<lambda>k. is_quote (?run ! k)) [1..<length ?run]
        = filter (\<lambda>k. is_quote (?run ! k)) [1..<length X]
          @ filter (\<lambda>k. is_quote (?run ! k)) [length X]
          @ filter (\<lambda>k. is_quote (?run ! k)) [Suc (length X)..<length ?run]"
      by (subst upt) (simp only: filter_append)
    moreover from assms(3) have "filter (\<lambda>k. is_quote (?run ! k)) [length X] = [length X]"
      by simp
    ultimately show ?thesis
      by (simp only: tail append_Nil2)
  qed
  show ?thesis
    unfolding url_group_def run Let_def ks by simp
qed

lemma match_here_other:
  "a \<noteq> CHR ''l'' \<Longrightarrow> a \<noteq> CHR ''j'' \<Longrightarrow> match_here (a # s) = None"
  by (simp add: match_here_def match_tail_def)

lemma js_link_search_skip:
  assumes "\<forall>c\<in>set P. c \<noteq> CHR ''l'' \<and> c \<noteq> CHR ''j''"
  shows "js_link_search (P @ c # s) = js_link_search (c # s)"
  using assms
proof (induction P)
  case Nil
  show ?case by simp
next
  case (Cons a P)
  then have "match_here (a # P @ c # s) = None"
    by (simp add: match_here_other)
  then have "js_link_search ((a # P) @ c # s) = js_link_search (P @ c # s)"
    by simp
  with Cons show ?case by simp
qed

lemma js_link_search_found:
  assumes "X \<noteq> []" "CHR 0x0A \<notin> set X" "is_quote q1" "is_quote q2"
    and "\<forall>c\<in>set (takeWhile (\<lambda>c. c \<noteq> CHR 0x0A) T). \<not> is_quote c"
    and "\<forall>c\<in>set P. c \<noteq> CHR ''l'' \<and> c \<noteq> CHR ''j''"
  shows "js_link_search (P @ ''location.href='' @ q1 # X @ q2 # T) = Some X"
    and "js_link_search (P @ ''javascript:location.href='' @ q1 # X @ q2 # T) = Some X"
proof -
  from url_group_greedy [OF assms(1,2,4,5)] assms(3)
  have "js_link_search (''location.href='' @ q1 # X @ q2 # T) = Some X"
    "js_link_search (''javascript:location.href='' @ q1 # X @ q2 # T) = Some X"
    by (simp_all add: match_here_def match_tail_def)
  with js_link_search_skip [OF assms(6)]
  show "js_link_search (P @ ''location.href='' @ q1 # X @ q2 # T) = Some X"
    and "js_link_search (P @ ''javascript:location.href='' @ q1 # X @ q2 # T) = Some X"
    by simp_all
qed

lemma strip_prefix_Some: "strip_prefix p s = Some s' \<Longrightarrow> s = p @ s'"
  by (induction p s rule: strip_prefix.induct) (auto split: if_splits)

lemma contains_prefix: "strip_prefix sub s \<noteq> None \<Longrightarrow> contains sub s"
  by (cases s; cases sub) auto

lemma contains_append_left: "contains sub s \<Longrightarrow> contains sub (p @ s)"
proof (induction p)
  case Nil
  then show ?case by simp
next
  case (Cons c p)
  then show ?case by simp
qed

lemma match_here_contains:
  assumes "match_here s = Some u"
  shows "contains ''location.href='' s"
proof -
  have tail: "contains ''location.href='' t" if "match_tail t = Some v" for t v
    using that by (intro contains_prefix) (auto simp: match_tail_def split: option.splits)
  show ?thesis
  proof (cases "strip_prefix ''javascript:'' s")
    case None
    with assms show ?thesis by (auto simp: match_here_def intro: tail)
  next
    case (Some s')
    show ?thesis
    proof (cases "match_tail s'")
      case None
      with Some assms show ?thesis by (auto simp: match_here_def intro: tail)
    next
      case (Some v)
      from tail [OF this] strip_prefix_Some [OF \<open>strip_prefix ''javascript:'' s = Some s'\<close>]
      show ?thesis using contains_append_left by blast
    qed
  qed
qed

lemma js_link_search_none:
  "\<not> contains ''location.href='' s \<Longrightarrow> js_link_search s = None"
proof (induction s)
  case Nil
  then show ?case by (simp add: match_here_def match_tail_def)
next
  case (Cons c s)
  have "match_here (c # s) = None"
  proof (cases "match_here (c # s)")
    case None
    then show ?thesis .
  next
    case (Some u)
    from match_here_contains [OF this] Cons.prems show ?thesis by blast
  qed
  moreover from Cons.prems have "\<not> contains ''location.href='' s" by simp
  ultimately show ?case using Cons.IH by simp
qed

text \<open>
  The group is greedy and not empty: in \<open>location.href='a';x='b'\<close> it runs to the last
  quote of the line, and \<open>location.href=''\<close> has no match.
\<close>

lemma js_link_search_examples:
  "js_link_search (''location.href='' @ [CHR 0x27] @ ''a'' @ [CHR 0x27] @ '';x=''
      @ [CHR 0x27] @ ''b'' @ [CHR 0x27])
   = Some (''a'' @ [CHR 0x27] @ '';x='' @ [CHR 0x27] @ ''b'')"
  "js_link_search (''location.href='' @ [CHR 0x27, CHR 0x27]) = None"
  by code_simp+

lemma NEW_IGNORED_dotted:
  "{''.7z'', ''.7zip'', ''.xz'', ''.gz'', ''.tar'', ''.bz2'', ''.cdr'', ''.apk''} \<subseteq> IGNORED exts"
  by (auto simp: IGNORED_def NEW_IGNORED_def)

text \<open>
  Claim C2: at link intake, an href of the form \<open>[javascript:]location.href='X'\<close> is
  rewritten to \<open>X\<close> and the link gets the \<open>js\<close> flag; every other href that begins with
  \<open>javascript:\<close> is dropped; every \<open>mailto:\<close> href is dropped; every URL with an ignored
  extension is dropped.

  The code has no branch that drops a \<open>javascript:\<close> href. For an \<open>a\<close> element with an
  href:
  \<^item> an href that contains \<open>mailto:\<close> is dropped;
  \<^item> the regular expression is searched for, not matched against the whole href: when
    the href holds \<open>location.href=\<close>, with or without \<open>javascript:\<close> before it, then a
    quote (\<open>'\<close> or \<open>"\<close>), a non-empty \<open>X\<close> without newline and a quote after which the
    line has no further quote, the href is replaced by \<open>X\<close> and the link is flagged \<open>js\<close>,
    whatever follows the closing quote (the \<open>;\<close> of the doctests) and whatever stands
    before (here: any text without the letters \<open>l\<close> and \<open>j\<close>, where no match can begin);
  \<^item> an href in which the regular expression finds nothing, as every href without
    \<open>location.href=\<close>, is kept as it is, without flag;
  \<^item> then the link is dropped if and only if
    \<open>url_has_any_extension(urljoin(base_url, href), _IGNORED)\<close>, and \<open>_IGNORED\<close> holds the
    dotted extensions of Scrapy's list and \<open>.7z\<close>, \<open>.7zip\<close>, \<open>.xz\<close>, \<open>.gz\<close>, \<open>.tar\<close>,
    \<open>.bz2\<close>, \<open>.cdr\<close>, \<open>.apk\<close>.
\<close>

theorem link_intake:
  assumes "map_of attrs ''href'' = Some href"
  shows "(contains ''mailto:'' href \<longrightarrow> extract_link_dict urljoin has_ext exts base attrs = None)
    \<and> (\<not> contains ''mailto:'' href \<longrightarrow> X \<noteq> [] \<longrightarrow> CHR 0x0A \<notin> set X \<longrightarrow>
         is_quote q1 \<longrightarrow> is_quote q2 \<longrightarrow>
         (\<forall>c\<in>set P. c \<noteq> CHR ''l'' \<and> c \<noteq> CHR ''j'') \<longrightarrow>
         (\<forall>c\<in>set (takeWhile (\<lambda>c. c \<noteq> CHR 0x0A) T). \<not> is_quote c) \<longrightarrow>
         href = P @ ''location.href='' @ q1 # X @ q2 # T
           \<or> href = P @ ''javascript:location.href='' @ q1 # X @ q2 # T \<longrightarrow>
         extract_link_dict urljoin has_ext exts base attrs =
           (if has_ext (urljoin base X) (IGNORED exts) then None
            else Some \<lparr>link_js = True, link_url = urljoin base X, link_attrs = attrs\<rparr>))
    \<and> (\<not> contains ''mailto:'' href \<longrightarrow> extract_js_link href = None \<longrightarrow>
         extract_link_dict urljoin has_ext exts base attrs =
           (if has_ext (urljoin base href) (IGNORED exts) then None
            else Some \<lparr>link_js = False, link_url = urljoin base href, link_attrs = attrs\<rparr>))
    \<and> (\<not> contains ''location.href='' href \<longrightarrow> extract_js_link href = None)
    \<and> (\<forall>l. extract_link_dict urljoin has_ext exts base attrs = Some l \<longrightarrow>
         \<not> has_ext (link_url l) (IGNORED exts))
    \<and> {''.7z'', ''.7zip'', ''.xz'', ''.gz'', ''.tar'', ''.bz2'', ''.cdr'', ''.apk''} \<subseteq> IGNORED exts
    \<and> (\<lambda>e. ''.'' @ e) ` exts \<subseteq> IGNORED exts"
proof (intro conjI impI allI)
  assume "contains ''mailto:'' href"
  with assms show "extract_link_dict urljoin has_ext exts base attrs = None"
    by (simp add: extract_link_dict_def)
next
  assume m: "\<not> contains ''mailto:'' href" and x: "X \<noteq> []" "CHR 0x0A \<notin> set X"
    and q: "is_quote q1" "is_quote q2"
    and p: "\<forall>c\<in>set P. c \<noteq> CHR ''l'' \<and> c \<noteq> CHR ''j''"
    and t: "\<forall>c\<in>set (takeWhile (\<lambda>c. c \<noteq> CHR 0x0A) T). \<not> is_quote c"
    and h: "href = P @ ''location.href='' @ q1 # X @ q2 # T
           \<or> href = P @ ''javascript:location.href='' @ q1 # X @ q2 # T"
  from h js_link_search_found [OF x q t p] have "extract_js_link href = Some X"
    unfolding extract_js_link_def by blast
  with assms m x show "extract_link_dict urljoin has_ext exts base attrs =
           (if has_ext (urljoin base X) (IGNORED exts) then None
            else Some \<lparr>link_js = True, link_url = urljoin base X, link_attrs = attrs\<rparr>)"
    by (simp add: extract_link_dict_def)
next
  assume "\<not> contains ''mailto:'' href" "extract_js_link href = None"
  with assms show "extract_link_dict urljoin has_ext exts base attrs =
           (if has_ext (urljoin base href) (IGNORED exts) then None
            else Some \<lparr>link_js = False, link_url = urljoin base href, link_attrs = attrs\<rparr>)"
    by (simp add: extract_link_dict_def)
next
  assume "\<not> contains ''location.href='' href"
  then show "extract_js_link href = None"
    unfolding extract_js_link_def by (rule js_link_search_none)
next
  fix l
  assume "extract_link_dict urljoin has_ext exts base attrs = Some l"
  with assms show "\<not> has_ext (link_url l) (IGNORED exts)"
    by (auto simp: extract_link_dict_def Let_def split: if_splits option.splits)
next
  show "{''.7z'', ''.7zip'', ''.xz'', ''.gz'', ''.tar'', ''.bz2'', ''.cdr'', ''.apk''} \<subseteq> IGNORED exts"
    by (rule NEW_IGNORED_dotted)
next
  show "(\<lambda>e. ''.'' @ e) ` exts \<subseteq> IGNORED exts"
    by (auto simp: IGNORED_def)
qed

theorem link_intake_witness:
  "(let urljoin = (\<lambda>base href. href);
        has_ext = (\<lambda>url exts. drop (length url - 4) url \<in> exts);
        yielded = (\<lambda>href. extract_link_dict urljoin has_ext {} ''http://d/'' [(''href'', href)]);
        fb = ''http://www.facebook.com/rivervalleyvet''
    in yielded ''mailto:a@d'' = None
     \<and> yielded (''javascript:location.href='' @ [CHR 0x27] @ fb @ [CHR 0x27] @ '';'')
         = Some \<lparr>link_js = True, link_url = fb,
                  link_attrs = [(''href'',
                     ''javascript:location.href='' @ [CHR 0x27] @ fb @ [CHR 0x27] @ '';'')]\<rparr>
     \<and> yielded (''location.href='' @ [CHR 0x27] @ fb @ [CHR 0x27] @ '';'')
         = Some \<lparr>link_js = True, link_url = fb,
                  link_attrs = [(''href'', ''location.href='' @ [CHR 0x27] @ fb @ [CHR 0x27] @ '';'')]\<rparr>
     \<and> yielded (''window.location.href='' @ [CHR 0x22] @ fb @ [CHR 0x22])
         = Some \<lparr>link_js = True, link_url = fb,
                  link_attrs = [(''href'', ''window.location.href='' @ [CHR 0x22] @ fb @ [CHR 0x22])]\<rparr>
     \<and> yielded (''javascript:href='' @ [CHR 0x27] @ fb @ [CHR 0x27] @ '';'')
         = Some \<lparr>link_js = False,
                  link_url = ''javascript:href='' @ [CHR 0x27] @ fb @ [CHR 0x27] @ '';'',
                  link_attrs = [(''href'', ''javascript:href='' @ [CHR 0x27] @ fb @ [CHR 0x27] @ '';'')]\<rparr>
     \<and> yielded ''http://d/a.tar'' = None)"
proof -
  define urljoin where "urljoin = (\<lambda>(base :: string) (href :: string). href)"
  define has_ext where
    "has_ext = (\<lambda>(url :: string) (exts :: string set). drop (length url - 4) url \<in> exts)"
  define yielded where
    "yielded = (\<lambda>href. extract_link_dict urljoin has_ext {} ''http://d/'' [(''href'', href)])"
  define fb where "fb = ''http://www.facebook.com/rivervalleyvet''"
  define h1 where "h1 = ''javascript:location.href='' @ [CHR 0x27] @ fb @ [CHR 0x27] @ '';''"
  define h2 where "h2 = ''location.href='' @ [CHR 0x27] @ fb @ [CHR 0x27] @ '';''"
  define h3 where "h3 = ''window.location.href='' @ [CHR 0x22] @ fb @ [CHR 0x22]"
  define h4 where "h4 = ''javascript:href='' @ [CHR 0x27] @ fb @ [CHR 0x27] @ '';''"
  have ign: "''.tar'' \<in> IGNORED {}" "''yvet'' \<notin> IGNORED {}"
    "[CHR ''e'', CHR ''t'', CHR 0x27, CHR '';''] \<notin> IGNORED {}"
    by (simp_all add: IGNORED_def NEW_IGNORED_def)
  have fbp: "fb \<noteq> []" "CHR 0x0A \<notin> set fb" and q: "is_quote (CHR 0x27)" "is_quote (CHR 0x22)"
    by (simp_all add: fb_def is_quote_def)
  have nm: "\<not> contains ''mailto:'' h1" "\<not> contains ''mailto:'' h2" "\<not> contains ''mailto:'' h3"
    "\<not> contains ''mailto:'' h4" "\<not> contains ''mailto:'' ''http://d/a.tar''"
    by (simp_all add: h1_def h2_def h3_def h4_def fb_def)
  have nl: "\<not> contains ''location.href='' h4" "\<not> contains ''location.href='' ''http://d/a.tar''"
    by (simp_all add: h4_def fb_def)
  have last4: "drop (length fb - 4) fb = ''yvet''"
    "drop (length h4 - 4) h4 = [CHR ''e'', CHR ''t'', CHR 0x27, CHR '';'']"
    by (simp_all add: fb_def h4_def)
  from link_intake [of "[(''href'', ''mailto:a@d'')]" "''mailto:a@d''" urljoin has_ext "{}" "''http://d/''"]
  have 1: "yielded ''mailto:a@d'' = None"
    by (simp add: yielded_def)
  from link_intake [of "[(''href'', h1)]" h1 urljoin has_ext "{}" "''http://d/''" fb
      "CHR 0x27" "CHR 0x27" "[]" "'';''"] nm fbp q ign last4
  have 2: "yielded h1 = Some \<lparr>link_js = True, link_url = fb, link_attrs = [(''href'', h1)]\<rparr>"
    by (simp add: yielded_def urljoin_def has_ext_def is_quote_def) (simp add: h1_def)
  from link_intake [of "[(''href'', h2)]" h2 urljoin has_ext "{}" "''http://d/''" fb
      "CHR 0x27" "CHR 0x27" "[]" "'';''"] nm fbp q ign last4
  have 3: "yielded h2 = Some \<lparr>link_js = True, link_url = fb, link_attrs = [(''href'', h2)]\<rparr>"
    by (simp add: yielded_def urljoin_def has_ext_def is_quote_def) (simp add: h2_def)
  from link_intake [of "[(''href'', h3)]" h3 urljoin has_ext "{}" "''http://d/''" fb
      "CHR 0x22" "CHR 0x22" "''window.''" "[]"] nm fbp q ign last4
  have 4: "yielded h3 = Some \<lparr>link_js = True, link_url = fb, link_attrs = [(''href'', h3)]\<rparr>"
    by (simp add: yielded_def urljoin_def has_ext_def is_quote_def) (simp add: h3_def)
  from link_intake [of "[(''href'', h4)]" h4 urljoin has_ext "{}" "''http://d/''"] nm nl ign last4
  have 5: "yielded h4 = Some \<lparr>link_js = False, link_url = h4, link_attrs = [(''href'', h4)]\<rparr>"
    by (simp add: yielded_def urljoin_def has_ext_def)
  from link_intake [of "[(''href'', ''http://d/a.tar'')]" "''http://d/a.tar''"
      urljoin has_ext "{}" "''http://d/''"] nm nl ign
  have 6: "yielded ''http://d/a.tar'' = None"
    by (simp add: yielded_def urljoin_def has_ext_def)
  from 1 2 3 4 5 6 show ?thesis
    unfolding yielded_def urljoin_def has_ext_def h1_def h2_def h3_def h4_def Let_def fb_def
    by simp
qed

text \<open>
  Against C2 as stated: the href \<open>javascript:void(0)\<close> is not of the form
  \<open>location.href='X'\<close>, and the element is not dropped whenever \<open>url_has_any_extension\<close>
  is false on the joined URL.
\<close>

theorem javascript_href_not_dropped:
  "\<not> (\<forall>urljoin has_ext exts base.
        extract_link_dict urljoin has_ext exts base [(''href'', ''javascript:void(0)'')] = None)"
proof
  assume "\<forall>urljoin has_ext exts base.
        extract_link_dict urljoin has_ext exts base [(''href'', ''javascript:void(0)'')] = None"
  then have "extract_link_dict (\<lambda>base href. href) (\<lambda>url exts. False) {} ''''
        [(''href'', ''javascript:void(0)'')] = None"
    by blast
  then show False
    by (simp add: extract_link_dict_def extract_js_link_def match_here_def match_tail_def)
qed

end
